theory Spec2Isabelle
  imports Complex_Main "HOL-Library.Log_Nat"
begin

section \<open>Thumbnail generator: a shallow embedding of \<^verbatim>\<open>app.py\<close>\<close>

text \<open>
  The service has one request handler, \<^verbatim>\<open>get_thumbnail\<close>, and two helpers,
  \<^verbatim>\<open>generate_gradient\<close> and \<^verbatim>\<open>add_text_to_image\<close>. Python integers are
  modelled by \<^typ>\<open>int\<close>, exceptions by values of \<open>py_error\<close> on the left of a sum.
\<close>

datatype py_error = ValueError | OverflowError | ZeroDivisionError | AttributeError

subsection \<open>Configuration\<close>

text \<open>
  The four bounds are imported from \<^verbatim>\<open>config.py\<close>, which is not part of the sources;
  they are parameters of the model.
\<close>

record config =
  API_THUMBNAIL_MIN_WIDTH :: int
  API_THUMBNAIL_MAX_WIDTH :: int
  API_THUMBNAIL_MIN_HEIGHT :: int
  API_THUMBNAIL_MAX_HEIGHT :: int

subsection \<open>Dimension normalisation (\<^verbatim>\<open>get_thumbnail\<close>, lines 112 to 130)\<close>

definition normalize_width :: "config \<Rightarrow> int \<Rightarrow> int" where
  "normalize_width cfg width =
     (if width \<le> API_THUMBNAIL_MIN_WIDTH cfg \<or> width \<ge> API_THUMBNAIL_MAX_WIDTH cfg then
        (let distance_from_max_width = \<bar>width - API_THUMBNAIL_MAX_WIDTH cfg\<bar>;
             distance_from_min_width = \<bar>width - API_THUMBNAIL_MIN_WIDTH cfg\<bar>
         in if distance_from_max_width < distance_from_min_width
            then API_THUMBNAIL_MAX_WIDTH cfg
            else API_THUMBNAIL_MIN_WIDTH cfg)
      else width)"

definition normalize_height :: "config \<Rightarrow> int \<Rightarrow> int" where
  "normalize_height cfg height =
     (if height \<le> API_THUMBNAIL_MIN_HEIGHT cfg \<or> height \<ge> API_THUMBNAIL_MAX_HEIGHT cfg then
        (let distance_from_max_height = \<bar>height - API_THUMBNAIL_MAX_HEIGHT cfg\<bar>;
             distance_from_min_height = \<bar>height - API_THUMBNAIL_MIN_HEIGHT cfg\<bar>
         in if distance_from_max_height < distance_from_min_height
            then API_THUMBNAIL_MAX_HEIGHT cfg
            else API_THUMBNAIL_MIN_HEIGHT cfg)
      else height)"

subsection \<open>Strings\<close>

text \<open>
  A Python \<^verbatim>\<open>str\<close> is a sequence of Unicode code points, modelled by a list of natural
  numbers. \<open>py_str\<close> turns a string literal of the logic into the \<^verbatim>\<open>str\<close> with the same
  characters, and \<open>ord_char\<close> gives the code point of a character.
\<close>

type_synonym codepoint = nat

type_synonym str = "codepoint list"

abbreviation ord_char :: "char \<Rightarrow> codepoint" where
  "ord_char \<equiv> of_char"

definition py_str :: "string \<Rightarrow> str" where
  "py_str s = map ord_char s"

definition lstrip :: "str \<Rightarrow> str \<Rightarrow> str" where
  \<comment> \<open>\<^verbatim>\<open>s.lstrip(chars)\<close>: drops every leading character that occurs in \<^verbatim>\<open>chars\<close>.\<close>
  "lstrip s chars = dropWhile (\<lambda>c. c \<in> set chars) s"

definition replace :: "str \<Rightarrow> codepoint \<Rightarrow> codepoint \<Rightarrow> str" where
  \<comment> \<open>\<^verbatim>\<open>s.replace(old, new)\<close> for one-character \<^verbatim>\<open>old\<close> and \<^verbatim>\<open>new\<close>.\<close>
  "replace s old new = map (\<lambda>c. if c = old then new else c) s"

definition slice :: "str \<Rightarrow> nat \<Rightarrow> nat \<Rightarrow> str" where
  \<comment> \<open>\<^verbatim>\<open>s[i:j]\<close> for \<open>0 \<le> i \<le> j\<close>; a slice past the end is shorter or empty, never an error.\<close>
  "slice s i j = take (j - i) (drop i s)"

subsection \<open>\<^verbatim>\<open>str.lower\<close>\<close>

text \<open>
  The tables of this section and of the next are those of the Unicode character database
  14.0.0, the one of CPython 3.11. A list of ranges gives first and last code point.
\<close>

definition in_ranges :: "(codepoint \<times> codepoint) list \<Rightarrow> codepoint \<Rightarrow> bool" where
  "in_ranges rs c = list_ex (\<lambda>(lo, hi). lo \<le> c \<and> c \<le> hi) rs"

text \<open>
  The code points with a lowercase mapping of one code point: \<open>(lo, hi, step, target)\<close>
  maps \<open>lo\<close>, \<open>lo + step\<close>, ... up to \<open>hi\<close> to \<open>target\<close>, \<open>target + step\<close>, ...
\<close>

definition lowercase_runs :: "(codepoint \<times> codepoint \<times> nat \<times> codepoint) list" where
  "lowercase_runs =
     [(65, 90, 1, 97), (192, 214, 1, 224), (216, 222, 1, 248), (256, 302, 2, 257),
      (306, 310, 2, 307), (313, 327, 2, 314), (330, 374, 2, 331), (376, 376, 1, 255),
      (377, 381, 2, 378), (385, 385, 1, 595), (386, 388, 2, 387), (390, 390, 1, 596),
      (391, 391, 1, 392), (393, 394, 1, 598), (395, 395, 1, 396), (398, 398, 1, 477),
      (399, 399, 1, 601), (400, 400, 1, 603), (401, 401, 1, 402), (403, 403, 1, 608),
      (404, 404, 1, 611), (406, 406, 1, 617), (407, 407, 1, 616), (408, 408, 1, 409),
      (412, 412, 1, 623), (413, 413, 1, 626), (415, 415, 1, 629), (416, 420, 2, 417),
      (422, 422, 1, 640), (423, 423, 1, 424), (425, 425, 1, 643), (428, 428, 1, 429),
      (430, 430, 1, 648), (431, 431, 1, 432), (433, 434, 1, 650), (435, 437, 2, 436),
      (439, 439, 1, 658), (440, 440, 1, 441), (444, 444, 1, 445), (452, 452, 1, 454),
      (453, 453, 1, 454), (455, 455, 1, 457), (456, 456, 1, 457), (458, 458, 1, 460),
      (459, 475, 2, 460), (478, 494, 2, 479), (497, 497, 1, 499), (498, 500, 2, 499),
      (502, 502, 1, 405), (503, 503, 1, 447), (504, 542, 2, 505), (544, 544, 1, 414),
      (546, 562, 2, 547), (570, 570, 1, 11365), (571, 571, 1, 572), (573, 573, 1, 410),
      (574, 574, 1, 11366), (577, 577, 1, 578), (579, 579, 1, 384), (580, 580, 1, 649),
      (581, 581, 1, 652), (582, 590, 2, 583), (880, 882, 2, 881), (886, 886, 1, 887),
      (895, 895, 1, 1011), (902, 902, 1, 940), (904, 906, 1, 941), (908, 908, 1, 972),
      (910, 911, 1, 973), (913, 929, 1, 945), (931, 939, 1, 963), (975, 975, 1, 983),
      (984, 1006, 2, 985), (1012, 1012, 1, 952), (1015, 1015, 1, 1016), (1017, 1017, 1, 1010),
      (1018, 1018, 1, 1019), (1021, 1023, 1, 891), (1024, 1039, 1, 1104), (1040, 1071, 1, 1072),
      (1120, 1152, 2, 1121), (1162, 1214, 2, 1163), (1216, 1216, 1, 1231), (1217, 1229, 2, 1218),
      (1232, 1326, 2, 1233), (1329, 1366, 1, 1377), (4256, 4293, 1, 11520),
      (4295, 4295, 1, 11559), (4301, 4301, 1, 11565), (5024, 5103, 1, 43888),
      (5104, 5109, 1, 5112), (7312, 7354, 1, 4304), (7357, 7359, 1, 4349), (7680, 7828, 2, 7681),
      (7838, 7838, 1, 223), (7840, 7934, 2, 7841), (7944, 7951, 1, 7936), (7960, 7965, 1, 7952),
      (7976, 7983, 1, 7968), (7992, 7999, 1, 7984), (8008, 8013, 1, 8000), (8025, 8031, 2, 8017),
      (8040, 8047, 1, 8032), (8072, 8079, 1, 8064), (8088, 8095, 1, 8080), (8104, 8111, 1, 8096),
      (8120, 8121, 1, 8112), (8122, 8123, 1, 8048), (8124, 8124, 1, 8115), (8136, 8139, 1, 8050),
      (8140, 8140, 1, 8131), (8152, 8153, 1, 8144), (8154, 8155, 1, 8054), (8168, 8169, 1, 8160),
      (8170, 8171, 1, 8058), (8172, 8172, 1, 8165), (8184, 8185, 1, 8056), (8186, 8187, 1, 8060),
      (8188, 8188, 1, 8179), (8486, 8486, 1, 969), (8490, 8490, 1, 107), (8491, 8491, 1, 229),
      (8498, 8498, 1, 8526), (8544, 8559, 1, 8560), (8579, 8579, 1, 8580), (9398, 9423, 1, 9424),
      (11264, 11311, 1, 11312), (11360, 11360, 1, 11361), (11362, 11362, 1, 619),
      (11363, 11363, 1, 7549), (11364, 11364, 1, 637), (11367, 11371, 2, 11368),
      (11373, 11373, 1, 593), (11374, 11374, 1, 625), (11375, 11375, 1, 592),
      (11376, 11376, 1, 594), (11378, 11378, 1, 11379), (11381, 11381, 1, 11382),
      (11390, 11391, 1, 575), (11392, 11490, 2, 11393), (11499, 11501, 2, 11500),
      (11506, 11506, 1, 11507), (42560, 42604, 2, 42561), (42624, 42650, 2, 42625),
      (42786, 42798, 2, 42787), (42802, 42862, 2, 42803), (42873, 42875, 2, 42874),
      (42877, 42877, 1, 7545), (42878, 42886, 2, 42879), (42891, 42891, 1, 42892),
      (42893, 42893, 1, 613), (42896, 42898, 2, 42897), (42902, 42920, 2, 42903),
      (42922, 42922, 1, 614), (42923, 42923, 1, 604), (42924, 42924, 1, 609),
      (42925, 42925, 1, 620), (42926, 42926, 1, 618), (42928, 42928, 1, 670),
      (42929, 42929, 1, 647), (42930, 42930, 1, 669), (42931, 42931, 1, 43859),
      (42932, 42946, 2, 42933), (42948, 42948, 1, 42900), (42949, 42949, 1, 642),
      (42950, 42950, 1, 7566), (42951, 42953, 2, 42952), (42960, 42960, 1, 42961),
      (42966, 42968, 2, 42967), (42997, 42997, 1, 42998), (65313, 65338, 1, 65345),
      (66560, 66599, 1, 66600), (66736, 66771, 1, 66776), (66928, 66938, 1, 66967),
      (66940, 66954, 1, 66979), (66956, 66962, 1, 66995), (66964, 66965, 1, 67003),
      (68736, 68786, 1, 68800), (71840, 71871, 1, 71872), (93760, 93791, 1, 93792),
      (125184, 125217, 1, 125218)]"

definition to_lower_full :: "codepoint \<Rightarrow> str" where
  \<comment> \<open>the only mapping to more than one code point is that of the dotted capital I\<close>
  "to_lower_full c =
     (if c = 304 then [105, 775]
      else case find (\<lambda>(lo, hi, step, target).
                        lo \<le> c \<and> c \<le> hi \<and> (c - lo) mod step = 0) lowercase_runs of
             None \<Rightarrow> [c]
           | Some (lo, hi, step, target) \<Rightarrow> [target + (c - lo)])"

text \<open>
  The capital sigma (931) becomes a final sigma (962) when a cased letter comes before it
  and none after it, case-ignorable characters being skipped on both sides; otherwise it
  becomes a small sigma (963).
\<close>

definition case_ignorable_ranges :: "(codepoint \<times> codepoint) list" where
  "case_ignorable_ranges =
     [(39, 39), (46, 46), (58, 58), (94, 94), (96, 96), (168, 168), (173, 173), (175, 175),
      (180, 180), (183, 184), (688, 879), (884, 885), (890, 890), (900, 901), (903, 903),
      (1155, 1161), (1369, 1369), (1375, 1375), (1425, 1469), (1471, 1471), (1473, 1474),
      (1476, 1477), (1479, 1479), (1524, 1524), (1536, 1541), (1552, 1562), (1564, 1564),
      (1600, 1600), (1611, 1631), (1648, 1648), (1750, 1757), (1759, 1768), (1770, 1773),
      (1807, 1807), (1809, 1809), (1840, 1866), (1958, 1968), (2027, 2037), (2042, 2042),
      (2045, 2045), (2070, 2093), (2137, 2139), (2184, 2184), (2192, 2193), (2200, 2207),
      (2249, 2306), (2362, 2362), (2364, 2364), (2369, 2376), (2381, 2381), (2385, 2391),
      (2402, 2403), (2417, 2417), (2433, 2433), (2492, 2492), (2497, 2500), (2509, 2509),
      (2530, 2531), (2558, 2558), (2561, 2562), (2620, 2620), (2625, 2626), (2631, 2632),
      (2635, 2637), (2641, 2641), (2672, 2673), (2677, 2677), (2689, 2690), (2748, 2748),
      (2753, 2757), (2759, 2760), (2765, 2765), (2786, 2787), (2810, 2815), (2817, 2817),
      (2876, 2876), (2879, 2879), (2881, 2884), (2893, 2893), (2901, 2902), (2914, 2915),
      (2946, 2946), (3008, 3008), (3021, 3021), (3072, 3072), (3076, 3076), (3132, 3132),
      (3134, 3136), (3142, 3144), (3146, 3149), (3157, 3158), (3170, 3171), (3201, 3201),
      (3260, 3260), (3263, 3263), (3270, 3270), (3276, 3277), (3298, 3299), (3328, 3329),
      (3387, 3388), (3393, 3396), (3405, 3405), (3426, 3427), (3457, 3457), (3530, 3530),
      (3538, 3540), (3542, 3542), (3633, 3633), (3636, 3642), (3654, 3662), (3761, 3761),
      (3764, 3772), (3782, 3782), (3784, 3789), (3864, 3865), (3893, 3893), (3895, 3895),
      (3897, 3897), (3953, 3966), (3968, 3972), (3974, 3975), (3981, 3991), (3993, 4028),
      (4038, 4038), (4141, 4144), (4146, 4151), (4153, 4154), (4157, 4158), (4184, 4185),
      (4190, 4192), (4209, 4212), (4226, 4226), (4229, 4230), (4237, 4237), (4253, 4253),
      (4348, 4348), (4957, 4959), (5906, 5908), (5938, 5939), (5970, 5971), (6002, 6003),
      (6068, 6069), (6071, 6077), (6086, 6086), (6089, 6099), (6103, 6103), (6109, 6109),
      (6155, 6159), (6211, 6211), (6277, 6278), (6313, 6313), (6432, 6434), (6439, 6440),
      (6450, 6450), (6457, 6459), (6679, 6680), (6683, 6683), (6742, 6742), (6744, 6750),
      (6752, 6752), (6754, 6754), (6757, 6764), (6771, 6780), (6783, 6783), (6823, 6823),
      (6832, 6862), (6912, 6915), (6964, 6964), (6966, 6970), (6972, 6972), (6978, 6978),
      (7019, 7027), (7040, 7041), (7074, 7077), (7080, 7081), (7083, 7085), (7142, 7142),
      (7144, 7145), (7149, 7149), (7151, 7153), (7212, 7219), (7222, 7223), (7288, 7293),
      (7376, 7378), (7380, 7392), (7394, 7400), (7405, 7405), (7412, 7412), (7416, 7417),
      (7468, 7530), (7544, 7544), (7579, 7679), (8125, 8125), (8127, 8129), (8141, 8143),
      (8157, 8159), (8173, 8175), (8189, 8190), (8203, 8207), (8216, 8217), (8228, 8228),
      (8231, 8231), (8234, 8238), (8288, 8292), (8294, 8303), (8305, 8305), (8319, 8319),
      (8336, 8348), (8400, 8432), (11388, 11389), (11503, 11505), (11631, 11631), (11647, 11647),
      (11744, 11775), (11823, 11823), (12293, 12293), (12330, 12333), (12337, 12341),
      (12347, 12347), (12441, 12446), (12540, 12542), (40981, 40981), (42232, 42237),
      (42508, 42508), (42607, 42610), (42612, 42621), (42623, 42623), (42652, 42655),
      (42736, 42737), (42752, 42785), (42864, 42864), (42888, 42890), (42994, 42996),
      (43000, 43001), (43010, 43010), (43014, 43014), (43019, 43019), (43045, 43046),
      (43052, 43052), (43204, 43205), (43232, 43249), (43263, 43263), (43302, 43309),
      (43335, 43345), (43392, 43394), (43443, 43443), (43446, 43449), (43452, 43453),
      (43471, 43471), (43493, 43494), (43561, 43566), (43569, 43570), (43573, 43574),
      (43587, 43587), (43596, 43596), (43632, 43632), (43644, 43644), (43696, 43696),
      (43698, 43700), (43703, 43704), (43710, 43711), (43713, 43713), (43741, 43741),
      (43756, 43757), (43763, 43764), (43766, 43766), (43867, 43871), (43881, 43883),
      (44005, 44005), (44008, 44008), (44013, 44013), (64286, 64286), (64434, 64450),
      (65024, 65039), (65043, 65043), (65056, 65071), (65106, 65106), (65109, 65109),
      (65279, 65279), (65287, 65287), (65294, 65294), (65306, 65306), (65342, 65342),
      (65344, 65344), (65392, 65392), (65438, 65439), (65507, 65507), (65529, 65531),
      (66045, 66045), (66272, 66272), (66422, 66426), (67456, 67461), (67463, 67504),
      (67506, 67514), (68097, 68099), (68101, 68102), (68108, 68111), (68152, 68154),
      (68159, 68159), (68325, 68326), (68900, 68903), (69291, 69292), (69446, 69456),
      (69506, 69509), (69633, 69633), (69688, 69702), (69744, 69744), (69747, 69748),
      (69759, 69761), (69811, 69814), (69817, 69818), (69821, 69821), (69826, 69826),
      (69837, 69837), (69888, 69890), (69927, 69931), (69933, 69940), (70003, 70003),
      (70016, 70017), (70070, 70078), (70089, 70092), (70095, 70095), (70191, 70193),
      (70196, 70196), (70198, 70199), (70206, 70206), (70367, 70367), (70371, 70378),
      (70400, 70401), (70459, 70460), (70464, 70464), (70502, 70508), (70512, 70516),
      (70712, 70719), (70722, 70724), (70726, 70726), (70750, 70750), (70835, 70840),
      (70842, 70842), (70847, 70848), (70850, 70851), (71090, 71093), (71100, 71101),
      (71103, 71104), (71132, 71133), (71219, 71226), (71229, 71229), (71231, 71232),
      (71339, 71339), (71341, 71341), (71344, 71349), (71351, 71351), (71453, 71455),
      (71458, 71461), (71463, 71467), (71727, 71735), (71737, 71738), (71995, 71996),
      (71998, 71998), (72003, 72003), (72148, 72151), (72154, 72155), (72160, 72160),
      (72193, 72202), (72243, 72248), (72251, 72254), (72263, 72263), (72273, 72278),
      (72281, 72283), (72330, 72342), (72344, 72345), (72752, 72758), (72760, 72765),
      (72767, 72767), (72850, 72871), (72874, 72880), (72882, 72883), (72885, 72886),
      (73009, 73014), (73018, 73018), (73020, 73021), (73023, 73029), (73031, 73031),
      (73104, 73105), (73109, 73109), (73111, 73111), (73459, 73460), (78896, 78904),
      (92912, 92916), (92976, 92982), (92992, 92995), (94031, 94031), (94095, 94111),
      (94176, 94177), (94179, 94180), (110576, 110579), (110581, 110587), (110589, 110590),
      (113821, 113822), (113824, 113827), (118528, 118573), (118576, 118598), (119143, 119145),
      (119155, 119170), (119173, 119179), (119210, 119213), (119362, 119364), (121344, 121398),
      (121403, 121452), (121461, 121461), (121476, 121476), (121499, 121503), (121505, 121519),
      (122880, 122886), (122888, 122904), (122907, 122913), (122915, 122916), (122918, 122922),
      (123184, 123197), (123566, 123566), (123628, 123631), (125136, 125142), (125252, 125259),
      (127995, 127999), (917505, 917505), (917536, 917631), (917760, 917999)]"

definition cased_ranges :: "(codepoint \<times> codepoint) list" where
  "cased_ranges =
     [(65, 90), (97, 122), (170, 170), (181, 181), (186, 186), (192, 214), (216, 246),
      (248, 442), (444, 447), (452, 659), (661, 696), (704, 705), (736, 740), (837, 837),
      (880, 883), (886, 887), (890, 893), (895, 895), (902, 902), (904, 906), (908, 908),
      (910, 929), (931, 1013), (1015, 1153), (1162, 1327), (1329, 1366), (1376, 1416),
      (4256, 4293), (4295, 4295), (4301, 4301), (4304, 4346), (4349, 4351), (5024, 5109),
      (5112, 5117), (7296, 7304), (7312, 7354), (7357, 7359), (7424, 7615), (7680, 7957),
      (7960, 7965), (7968, 8005), (8008, 8013), (8016, 8023), (8025, 8025), (8027, 8027),
      (8029, 8029), (8031, 8061), (8064, 8116), (8118, 8124), (8126, 8126), (8130, 8132),
      (8134, 8140), (8144, 8147), (8150, 8155), (8160, 8172), (8178, 8180), (8182, 8188),
      (8305, 8305), (8319, 8319), (8336, 8348), (8450, 8450), (8455, 8455), (8458, 8467),
      (8469, 8469), (8473, 8477), (8484, 8484), (8486, 8486), (8488, 8488), (8490, 8493),
      (8495, 8500), (8505, 8505), (8508, 8511), (8517, 8521), (8526, 8526), (8544, 8575),
      (8579, 8580), (9398, 9449), (11264, 11492), (11499, 11502), (11506, 11507), (11520, 11557),
      (11559, 11559), (11565, 11565), (42560, 42605), (42624, 42653), (42786, 42887),
      (42891, 42894), (42896, 42954), (42960, 42961), (42963, 42963), (42965, 42969),
      (42997, 42998), (43000, 43002), (43824, 43866), (43868, 43880), (43888, 43967),
      (64256, 64262), (64275, 64279), (65313, 65338), (65345, 65370), (66560, 66639),
      (66736, 66771), (66776, 66811), (66928, 66938), (66940, 66954), (66956, 66962),
      (66964, 66965), (66967, 66977), (66979, 66993), (66995, 67001), (67003, 67004),
      (67456, 67456), (67459, 67461), (67463, 67504), (67506, 67514), (68736, 68786),
      (68800, 68850), (71840, 71903), (93760, 93823), (119808, 119892), (119894, 119964),
      (119966, 119967), (119970, 119970), (119973, 119974), (119977, 119980), (119982, 119993),
      (119995, 119995), (119997, 120003), (120005, 120069), (120071, 120074), (120077, 120084),
      (120086, 120092), (120094, 120121), (120123, 120126), (120128, 120132), (120134, 120134),
      (120138, 120144), (120146, 120485), (120488, 120512), (120514, 120538), (120540, 120570),
      (120572, 120596), (120598, 120628), (120630, 120654), (120656, 120686), (120688, 120712),
      (120714, 120744), (120746, 120770), (120772, 120779), (122624, 122633), (122635, 122654),
      (125184, 125251), (127280, 127305), (127312, 127337), (127344, 127369)]"

definition case_ignorable :: "codepoint \<Rightarrow> bool" where
  "case_ignorable c = in_ranges case_ignorable_ranges c"

definition cased :: "codepoint \<Rightarrow> bool" where
  "cased c = in_ranges cased_ranges c"

definition final_sigma :: "str \<Rightarrow> str \<Rightarrow> bool" where
  "final_sigma passed rest =
     ((case dropWhile case_ignorable (rev passed) of [] \<Rightarrow> False | c # cs \<Rightarrow> cased c) \<and>
      (case dropWhile case_ignorable rest of [] \<Rightarrow> True | c # cs \<Rightarrow> \<not> cased c))"

fun lower_from :: "str \<Rightarrow> str \<Rightarrow> str" where
  \<comment> \<open>\<open>passed\<close> is the part of the string already mapped\<close>
  "lower_from passed [] = []"
| "lower_from passed (c # cs) =
     (if c = 931 then [if final_sigma passed cs then 962 else 963] else to_lower_full c)
     @ lower_from (passed @ [c]) cs"

definition ascii_lower :: "codepoint \<Rightarrow> codepoint" where
  "ascii_lower c = (if 65 \<le> c \<and> c \<le> 90 then c + 32 else c)"

definition lower :: "str \<Rightarrow> str" where
  \<comment> \<open>a string of ASCII characters only is mapped letter by letter\<close>
  "lower s = (if list_all (\<lambda>c. c < 128) s then map ascii_lower s else lower_from [] s)"

subsection \<open>\<^verbatim>\<open>int(s, 16)\<close>\<close>

text \<open>
  CPython first brings the string to ASCII: a character below 128 is kept, Unicode white
  space becomes a space, a Unicode decimal digit becomes the ASCII digit of its value, and
  any other character becomes \<^verbatim>\<open>?\<close>, which the parser rejects.
\<close>

definition unicode_space :: "codepoint \<Rightarrow> bool" where
  "unicode_space c =
     in_ranges [(133, 133), (160, 160), (5760, 5760), (8192, 8202), (8232, 8233), (8239, 8239),
                (8287, 8287), (12288, 12288)] c"

text \<open>The digits zero of the decimal digits above 128; the nine others follow each.\<close>

definition decimal_zeros :: "codepoint list" where
  "decimal_zeros =
     [1632, 1776, 1984, 2406, 2534, 2662, 2790, 2918, 3046, 3174, 3302, 3430, 3558, 3664, 3792,
      3872, 4160, 4240, 6112, 6160, 6470, 6608, 6784, 6800, 6992, 7088, 7232, 7248, 42528, 43216,
      43264, 43472, 43504, 43600, 44016, 65296, 66720, 68912, 69734, 69872, 69942, 70096, 70384,
      70736, 70864, 71248, 71360, 71472, 71904, 72016, 72784, 73040, 73120, 92768, 92864, 93008,
      120782, 120792, 120802, 120812, 120822, 123200, 123632, 125264, 130032]"

definition to_decimal :: "codepoint \<Rightarrow> nat option" where
  "to_decimal c =
     (case find (\<lambda>zero. zero \<le> c \<and> c < zero + 10) decimal_zeros of
        None \<Rightarrow> None
      | Some zero \<Rightarrow> Some (c - zero))"

definition to_ascii :: "codepoint \<Rightarrow> codepoint" where
  "to_ascii c =
     (if c < 128 then c
      else if unicode_space c then ord_char CHR '' ''
      else case to_decimal c of Some d \<Rightarrow> ord_char CHR ''0'' + d | None \<Rightarrow> ord_char CHR ''?'')"

text \<open>
  Then the parser: white space on both sides, one optional sign, an optional
  \<^verbatim>\<open>0x\<close> prefix, then hexadecimal digits which single underscores may separate.
  Anything else raises \<^verbatim>\<open>ValueError\<close>.
\<close>

definition is_space :: "codepoint \<Rightarrow> bool" where
  "is_space c = (c \<in> {9, 10, 11, 12, 13, 32})"

definition is_hex_digit :: "codepoint \<Rightarrow> bool" where
  "is_hex_digit c = (c \<in> set (py_str ''0123456789abcdefABCDEF''))"

definition digit_value :: "codepoint \<Rightarrow> int" where
  "digit_value c =
     (if 48 \<le> c \<and> c \<le> 57 then int c - 48
      else if 97 \<le> c \<and> c \<le> 102 then int c - 87
      else int c - 55)"

fun strip_sign :: "str \<Rightarrow> int \<times> str" where
  "strip_sign [] = (1, [])"
| "strip_sign (c # cs) =
     (if c = ord_char CHR ''+'' then (1, cs) else if c = ord_char CHR ''-'' then (- 1, cs) else (1, c # cs))"

fun strip_prefix_0x :: "str \<Rightarrow> str" where
  "strip_prefix_0x (a # b # cs) =
     (if a = ord_char CHR ''0'' \<and> (b = ord_char CHR ''x'' \<or> b = ord_char CHR ''X'')
      then (case cs of [] \<Rightarrow> [] | c # ds \<Rightarrow> if c = ord_char CHR ''_'' then ds else c # ds)
      else a # b # cs)"
| "strip_prefix_0x cs = cs"

fun double_underscore :: "str \<Rightarrow> bool" where
  "double_underscore (a # b # cs) =
     ((a = ord_char CHR ''_'' \<and> b = ord_char CHR ''_'') \<or> double_underscore (b # cs))"
| "double_underscore cs = False"

definition parse_base16 :: "str \<Rightarrow> py_error + int" where
  "parse_base16 s =
     (let (sign, unsigned) = strip_sign (dropWhile is_space s);
          literal = strip_prefix_0x unsigned;
          body = takeWhile (\<lambda>c. is_hex_digit c \<or> c = ord_char CHR ''_'') literal;
          rest = dropWhile (\<lambda>c. is_hex_digit c \<or> c = ord_char CHR ''_'') literal
      in if body = [] \<or> hd body = ord_char CHR ''_'' \<or> last body = ord_char CHR ''_''
            \<or> double_underscore body \<or> dropWhile is_space rest \<noteq> []
         then Inl ValueError
         else Inr (sign * foldl (\<lambda>acc c. 16 * acc + digit_value c) 0 (filter is_hex_digit body)))"

definition int_base16 :: "str \<Rightarrow> py_error + int" where
  "int_base16 s = parse_base16 (map to_ascii s)"

subsection \<open>Random colours\<close>

text \<open>
  The state of the \<^verbatim>\<open>random\<close> module is a stream of raw draws.
  \<^verbatim>\<open>random.randint(a, b)\<close> consumes one and returns an integer in \<open>[a, b]\<close>.
\<close>

type_synonym rng = "nat \<Rightarrow> nat"

type_synonym rgb = "int \<times> int \<times> int"

definition randint :: "int \<Rightarrow> int \<Rightarrow> rng \<Rightarrow> int \<times> rng" where
  "randint a b g = (a + int (g 0 mod nat (b - a + 1)), \<lambda>n. g (Suc n))"

definition random_color :: "rng \<Rightarrow> rgb \<times> rng" where
  \<comment> \<open>\<^verbatim>\<open>(random.randint(0, 255), random.randint(0, 255), random.randint(0, 255))\<close>\<close>
  "random_color g =
     (let (r, g1) = randint 0 255 g; (gr, g2) = randint 0 255 g1; (b, g3) = randint 0 255 g2
      in ((r, gr, b), g3))"

subsection \<open>Colour resolution (\<^verbatim>\<open>get_thumbnail\<close>, lines 133 to 150 and 152 to 169)\<close>

definition hex_to_rgb :: "str \<Rightarrow> py_error + rgb" where
  \<comment> \<open>\<^verbatim>\<open>tuple(int(color[i : i + 2], 16) for i in (0, 2, 4))\<close>\<close>
  "hex_to_rgb color =
     (case int_base16 (slice color 0 2) of Inl e \<Rightarrow> Inl e | Inr r \<Rightarrow>
      case int_base16 (slice color 2 4) of Inl e \<Rightarrow> Inl e | Inr g \<Rightarrow>
      case int_base16 (slice color 4 6) of Inl e \<Rightarrow> Inl e | Inr b \<Rightarrow> Inr (r, g, b))"

text \<open>
  The handler runs the same block for \<^verbatim>\<open>top_color\<close> and for \<^verbatim>\<open>bottom_color\<close>.
  Only \<^verbatim>\<open>ValueError\<close> is caught; any other exception would leave the handler.
\<close>

definition resolve_color :: "str option \<Rightarrow> rng \<Rightarrow> (py_error + rgb) \<times> rng" where
  "resolve_color color g =
     (case color of
        None \<Rightarrow> (let (c, g') = random_color g in (Inr c, g'))
      | Some s \<Rightarrow>
          (case hex_to_rgb (lower (lstrip s (py_str ''#''))) of
             Inr c \<Rightarrow> (Inr c, g)
           | Inl e \<Rightarrow>
               if e = ValueError then (let (c, g') = random_color g in (Inr c, g'))
               else (Inl e, g)))"

subsection \<open>Floating point\<close>

text \<open>
  A Python \<^verbatim>\<open>float\<close> is an IEEE 754 binary64 number. A finite one is modelled by the
  rational it denotes, and every operation by the exact operation followed by
  \<open>round_to_double\<close>: round to nearest with 53 significant bits, ties to the even
  significand, the exponent of the last place never below \<open>-1074\<close> (subnormal numbers).
  The sign of zero is not kept; nothing below depends on it.
\<close>

definition round_half_even :: "rat \<Rightarrow> int" where
  "round_half_even x =
     (let f = \<lfloor>x\<rfloor>; d = x - of_int f
      in if d < 1 / 2 then f else if 1 / 2 < d then f + 1 else if even f then f else f + 1)"

definition binary_exponent :: "rat \<Rightarrow> int" where
  \<comment> \<open>for \<open>0 < x\<close>, the \<open>e\<close> with \<open>2 powi e \<le> x < 2 powi (e + 1)\<close>\<close>
  "binary_exponent x =
     (let (a, b) = quotient_of x; k = bitlen a - bitlen b
      in if 2 powi k \<le> x then k else k - 1)"

definition round_to_double :: "rat \<Rightarrow> rat" where
  "round_to_double x =
     (if x = 0 then 0
      else let e = max (binary_exponent \<bar>x\<bar>) (- 1022); q = 2 powi (e - 52)
           in sgn x * of_int (round_half_even (\<bar>x\<bar> / q)) * q)"

text \<open>
  A result that rounds to \<open>2 ^ 1024\<close> or beyond is not a finite double. Converting such an
  integer raises \<^verbatim>\<open>OverflowError\<close>. A float operation gives an infinity instead; the two
  functions that compute with floats pass that value on to \<^verbatim>\<open>int()\<close>, which raises
  \<^verbatim>\<open>OverflowError\<close> on an infinity, so the model raises at the operation.
\<close>

definition to_double :: "rat \<Rightarrow> py_error + rat" where
  "to_double x =
     (if 2 ^ 1024 \<le> \<bar>round_to_double x\<bar> then Inl OverflowError else Inr (round_to_double x))"

definition float_of_int :: "int \<Rightarrow> py_error + rat" where
  "float_of_int n = to_double (of_int n)"

definition float_add :: "rat \<Rightarrow> rat \<Rightarrow> py_error + rat" where
  "float_add x y = to_double (x + y)"

definition float_sub :: "rat \<Rightarrow> rat \<Rightarrow> py_error + rat" where
  "float_sub x y = to_double (x - y)"

definition float_mul :: "rat \<Rightarrow> rat \<Rightarrow> py_error + rat" where
  "float_mul x y = to_double (x * y)"

definition float_truediv :: "rat \<Rightarrow> rat \<Rightarrow> py_error + rat" where
  "float_truediv x y = (if y = 0 then Inl ZeroDivisionError else to_double (x / y))"

definition int_truediv :: "int \<Rightarrow> int \<Rightarrow> py_error + rat" where
  \<comment> \<open>\<^verbatim>\<open>a / b\<close> on two integers: the correctly rounded quotient\<close>
  "int_truediv a b = (if b = 0 then Inl ZeroDivisionError else to_double (of_int a / of_int b))"

text \<open>An integer operand of a mixed operation is converted first.\<close>

definition int_sub_float :: "int \<Rightarrow> rat \<Rightarrow> py_error + rat" where
  "int_sub_float n x = (case float_of_int n of Inl e \<Rightarrow> Inl e | Inr y \<Rightarrow> float_sub y x)"

definition int_add_float :: "int \<Rightarrow> rat \<Rightarrow> py_error + rat" where
  "int_add_float n x = (case float_of_int n of Inl e \<Rightarrow> Inl e | Inr y \<Rightarrow> float_add y x)"

definition int_mul_float :: "int \<Rightarrow> rat \<Rightarrow> py_error + rat" where
  "int_mul_float n x = (case float_of_int n of Inl e \<Rightarrow> Inl e | Inr y \<Rightarrow> float_mul y x)"

definition float_mul_int :: "rat \<Rightarrow> int \<Rightarrow> py_error + rat" where
  "float_mul_int x n = (case float_of_int n of Inl e \<Rightarrow> Inl e | Inr y \<Rightarrow> float_mul x y)"

definition int_div_float :: "int \<Rightarrow> rat \<Rightarrow> py_error + rat" where
  "int_div_float n x = (case float_of_int n of Inl e \<Rightarrow> Inl e | Inr y \<Rightarrow> float_truediv y x)"

definition int_of_float :: "rat \<Rightarrow> int" where
  \<comment> \<open>\<^verbatim>\<open>int(x)\<close> truncates towards zero\<close>
  "int_of_float x = (if 0 \<le> x then \<lfloor>x\<rfloor> else \<lceil>x\<rceil>)"

subsection \<open>Images\<close>

text \<open>
  A Pillow image in mode \<^verbatim>\<open>RGB\<close>: its size, its rows of pixels from top to bottom, and the
  text drawn on it. Glyphs depend on the font file, which is not part of the sources, so a
  call of \<^verbatim>\<open>draw.text\<close> is recorded with its arguments instead of being rasterised.
  A variable of this type is called \<open>img\<close>, since \<open>image\<close> is a constant of the logic.
\<close>

record text_call =
  text_position :: "rat \<times> rat"
  text_string :: str
  text_fill :: str
  text_font_size :: int
  text_stroke_width :: int
  text_stroke_fill :: str

record image =
  image_size :: "int \<times> int"
  image_rows :: "rgb list list"
  image_texts :: "text_call list"

definition image_new :: "int \<times> int \<Rightarrow> py_error + image" where
  \<comment> \<open>\<^verbatim>\<open>Image.new("RGB", size)\<close>: a black image; a negative side raises \<^verbatim>\<open>ValueError\<close>\<close>
  "image_new sz =
     (case sz of (w, h) \<Rightarrow>
        if w < 0 \<or> h < 0 then Inl ValueError
        else Inr \<lparr>image_size = (w, h),
                  image_rows = replicate (nat h) (replicate (nat w) (0, 0, 0)),
                  image_texts = []\<rparr>)"

definition clip8 :: "int \<Rightarrow> int" where
  "clip8 v = (if v < 0 then 0 else if 255 < v then 255 else v)"

definition ink :: "rgb \<Rightarrow> rgb" where
  \<comment> \<open>a fill colour given as a tuple of integers is clipped to bytes\<close>
  "ink fill = (case fill of (r, g, b) \<Rightarrow> (clip8 r, clip8 g, clip8 b))"

definition draw_line :: "image \<Rightarrow> int \<Rightarrow> int \<Rightarrow> int \<Rightarrow> rgb \<Rightarrow> image" where
  \<comment> \<open>\<^verbatim>\<open>draw.line((x0, y, x1, y), fill=fill)\<close>: a horizontal segment, both end points
      included, clipped to the image\<close>
  "draw_line img x0 y x1 fill =
     (if 0 \<le> y \<and> nat y < length (image_rows img) then
        img\<lparr>image_rows := (image_rows img)
          [nat y := map (\<lambda>x. if min x0 x1 \<le> int x \<and> int x \<le> max x0 x1 then ink fill
                              else image_rows img ! nat y ! x)
                        [0..<length (image_rows img ! nat y)]]\<rparr>
      else img)"

subsection \<open>\<^verbatim>\<open>generate_gradient\<close>\<close>

definition gradient_channel :: "int \<Rightarrow> int \<Rightarrow> rat \<Rightarrow> py_error + int" where
  \<comment> \<open>\<^verbatim>\<open>int(color1[i] * (1 - r) + color2[i] * r)\<close>\<close>
  "gradient_channel c1 c2 r =
     (case int_sub_float 1 r of Inl e \<Rightarrow> Inl e | Inr s \<Rightarrow>
      case int_mul_float c1 s of Inl e \<Rightarrow> Inl e | Inr a \<Rightarrow>
      case int_mul_float c2 r of Inl e \<Rightarrow> Inl e | Inr b \<Rightarrow>
      case float_add a b of Inl e \<Rightarrow> Inl e | Inr v \<Rightarrow> Inr (int_of_float v))"

definition gradient_color :: "rgb \<Rightarrow> rgb \<Rightarrow> rat \<Rightarrow> py_error + rgb" where
  \<comment> \<open>\<^verbatim>\<open>tuple(int(color1[i] * (1 - r) + color2[i] * r) for i in range(3))\<close>\<close>
  "gradient_color color1 color2 r =
     (case (color1, color2) of ((r1, g1, b1), (r2, g2, b2)) \<Rightarrow>
        case gradient_channel r1 r2 r of Inl e \<Rightarrow> Inl e | Inr cr \<Rightarrow>
        case gradient_channel g1 g2 r of Inl e \<Rightarrow> Inl e | Inr cg \<Rightarrow>
        case gradient_channel b1 b2 r of Inl e \<Rightarrow> Inl e | Inr cb \<Rightarrow> Inr (cr, cg, cb))"

fun gradient_loop :: "int \<Rightarrow> int \<Rightarrow> rgb \<Rightarrow> rgb \<Rightarrow> int list \<Rightarrow> image \<Rightarrow> py_error + image" where
  "gradient_loop width height color1 color2 [] img = Inr img"
| "gradient_loop width height color1 color2 (y # ys) img =
     (case int_truediv y height of Inl e \<Rightarrow> Inl e | Inr r \<Rightarrow>
      case gradient_color color1 color2 r of Inl e \<Rightarrow> Inl e | Inr color \<Rightarrow>
        gradient_loop width height color1 color2 ys (draw_line img 0 y width color))"

definition generate_gradient :: "int \<Rightarrow> int \<Rightarrow> rgb \<Rightarrow> rgb \<Rightarrow> py_error + image" where
  \<comment> \<open>the loop runs over \<^verbatim>\<open>range(height)\<close>, that is \<open>[0..height - 1]\<close>\<close>
  "generate_gradient width height color1 color2 =
     (case image_new (width, height) of Inl e \<Rightarrow> Inl e | Inr img \<Rightarrow>
        gradient_loop width height color1 color2 [0..height - 1] img)"

subsection \<open>\<^verbatim>\<open>add_text_to_image\<close>\<close>

definition get_font_size :: "str \<Rightarrow> py_error + int" where
  \<comment> \<open>\<^verbatim>\<open>int(100 / (1 + 0.05 * abs(20 - length)))\<close>; the literal \<^verbatim>\<open>0.05\<close> is the double
      nearest to \<open>5 / 100\<close>\<close>
  "get_font_size text =
     (let len = int (length text) in
      case float_mul_int (round_to_double (5 / 100)) \<bar>20 - len\<bar> of Inl e \<Rightarrow> Inl e | Inr p \<Rightarrow>
      case int_add_float 1 p of Inl e \<Rightarrow> Inl e | Inr s \<Rightarrow>
      case int_div_float 100 s of Inl e \<Rightarrow> Inl e | Inr q \<Rightarrow> Inr (int_of_float q))"

text \<open>
  \<open>textsize text font_size\<close> stands for \<^verbatim>\<open>draw.textsize(text, font=font)\<close> with the font
  \<^verbatim>\<open>Arial Bold.ttf\<close> loaded at \<open>font_size\<close>: the metrics come from the font file, so they
  are a parameter. Failures inside the font library are not modelled.
\<close>

definition add_text_to_image ::
  "(str \<Rightarrow> int \<Rightarrow> int \<times> int) \<Rightarrow> image \<Rightarrow> str \<Rightarrow> int \<Rightarrow> int \<Rightarrow> py_error + image" where
  "add_text_to_image textsize img text width height =
     (case get_font_size text of Inl e \<Rightarrow> Inl e | Inr font_size \<Rightarrow>
        (case textsize text font_size of (text_width, text_height) \<Rightarrow>
           case int_truediv (width - text_width) 2 of Inl e \<Rightarrow> Inl e | Inr px \<Rightarrow>
           case int_truediv (height - text_height) 2 of Inl e \<Rightarrow> Inl e | Inr py \<Rightarrow>
             Inr (img\<lparr>image_texts := image_texts img @
                    [\<lparr>text_position = (px, py), text_string = text, text_fill = py_str ''white'',
                      text_font_size = font_size, text_stroke_width = 3,
                      text_stroke_fill = py_str ''black''\<rparr>]\<rparr>)))"

subsection \<open>\<^verbatim>\<open>get_thumbnail\<close>\<close>

text \<open>
  The response carries the image; its PNG encoding is lossless and is not modelled.
  An absent \<^verbatim>\<open>text\<close> is \<^verbatim>\<open>None\<close>, on which \<^verbatim>\<open>.replace\<close> raises \<^verbatim>\<open>AttributeError\<close>.
\<close>

record response =
  content :: image
  media_type :: str

definition render_response ::
  "(str \<Rightarrow> int \<Rightarrow> int \<times> int) \<Rightarrow> int \<Rightarrow> int \<Rightarrow> rgb \<Rightarrow> rgb \<Rightarrow> str option
     \<Rightarrow> py_error + response" where
  \<comment> \<open>lines 171 to 182\<close>
  "render_response textsize width height top_color bottom_color text =
     (case generate_gradient width height top_color bottom_color of Inl e \<Rightarrow> Inl e | Inr img \<Rightarrow>
        (case text of
           None \<Rightarrow> Inl AttributeError
         | Some t \<Rightarrow>
             (case add_text_to_image textsize img
                     (replace (replace t (ord_char CHR ''_'') (ord_char CHR '' '')) (ord_char CHR ''-'')
                        (ord_char CHR '' '')) width height of
                Inl e \<Rightarrow> Inl e
              | Inr img' \<Rightarrow> Inr \<lparr>content = img', media_type = py_str ''image/png''\<rparr>)))"

definition get_thumbnail ::
  "config \<Rightarrow> (str \<Rightarrow> int \<Rightarrow> int \<times> int) \<Rightarrow> rng \<Rightarrow> int \<Rightarrow> int \<Rightarrow> str option \<Rightarrow> str option
     \<Rightarrow> str option \<Rightarrow> (py_error + response) \<times> rng" where
  "get_thumbnail cfg textsize g width height top_color bottom_color text =
     (case resolve_color top_color g of
        (Inl e, g1) \<Rightarrow> (Inl e, g1)
      | (Inr top_rgb, g1) \<Rightarrow>
          (case resolve_color bottom_color g1 of
             (Inl e, g2) \<Rightarrow> (Inl e, g2)
           | (Inr bottom_rgb, g2) \<Rightarrow>
               (render_response textsize (normalize_width cfg width) (normalize_height cfg height)
                  top_rgb bottom_rgb text, g2)))"

subsection \<open>Notions used in the statements\<close>

text \<open>
  The colour that six hexadecimal digits denote, read as three bytes at positions 0 and 1,
  2 and 3, 4 and 5; the value of a digit does not depend on its case.
\<close>

definition decoded_rgb :: "str \<Rightarrow> rgb" where
  "decoded_rgb s =
     (16 * digit_value (s ! 0) + digit_value (s ! 1),
      16 * digit_value (s ! 2) + digit_value (s ! 3),
      16 * digit_value (s ! 4) + digit_value (s ! 5))"

text \<open>A colour with every channel a byte.\<close>

definition is_rgb :: "rgb \<Rightarrow> bool" where
  "is_rgb c = (case c of (r, g, b) \<Rightarrow> 0 \<le> r \<and> r \<le> 255 \<and> 0 \<le> g \<and> g \<le> 255 \<and> 0 \<le> b \<and> b \<le> 255)"

text \<open>
  The interpolation of the specification: the fraction \<open>t = y / height\<close> is a float
  division, and a channel is the floor of \<open>top * (1 - t) + bottom * t\<close>, every operation
  being the floating-point one.
\<close>

definition interpolation_fraction :: "int \<Rightarrow> int \<Rightarrow> rat" where
  "interpolation_fraction y height = round_to_double (of_int y / of_int height)"

definition interpolated_channel :: "int \<Rightarrow> int \<Rightarrow> rat \<Rightarrow> int" where
  "interpolated_channel c_top c_bottom t =
     \<lfloor>round_to_double (round_to_double (of_int c_top * round_to_double (1 - t))
                       + round_to_double (of_int c_bottom * t))\<rfloor>"

definition interpolated_color :: "rgb \<Rightarrow> rgb \<Rightarrow> rat \<Rightarrow> rgb" where
  "interpolated_color color_top color_bottom t =
     (case (color_top, color_bottom) of ((r1, g1, b1), (r2, g2, b2)) \<Rightarrow>
        (interpolated_channel r1 r2 t, interpolated_channel g1 g2 t, interpolated_channel b1 b2 t))"

text \<open>Row \<open>y\<close> of the image that \<^verbatim>\<open>generate_gradient\<close> returns, when there is one.\<close>

definition gradient_row :: "int \<Rightarrow> int \<Rightarrow> rgb \<Rightarrow> rgb \<Rightarrow> int \<Rightarrow> rgb list option" where
  "gradient_row width height color1 color2 y =
     (case generate_gradient width height color1 color2 of
        Inl e \<Rightarrow> None
      | Inr img \<Rightarrow> if 0 \<le> y \<and> nat y < length (image_rows img) then Some (image_rows img ! nat y)
                  else None)"

text \<open>
  The quotient \<^verbatim>\<open>100 / (1 + 0.05 * k)\<close> of the font size, before it is made an integer:
  \<open>k\<close> stands for \<^verbatim>\<open>abs(20 - length)\<close>, and every operation is the floating-point one.
\<close>

definition font_quotient :: "int \<Rightarrow> rat" where
  "font_quotient k =
     round_to_double (100 / round_to_double (1 + round_to_double
        (round_to_double (5 / 100) * round_to_double (of_int k))))"

text \<open>
  The font size of the specification, which rounds the quotient where \<^verbatim>\<open>get_font_size\<close>
  truncates it: first with the operations of the code and \<^verbatim>\<open>round\<close> in the place of
  \<^verbatim>\<open>int\<close>, then in exact arithmetic.
\<close>

definition rounded_font_size :: "str \<Rightarrow> py_error + int" where
  "rounded_font_size text =
     (let len = int (length text) in
      case float_mul_int (round_to_double (5 / 100)) \<bar>20 - len\<bar> of Inl e \<Rightarrow> Inl e | Inr p \<Rightarrow>
      case int_add_float 1 p of Inl e \<Rightarrow> Inl e | Inr s \<Rightarrow>
      case int_div_float 100 s of Inl e \<Rightarrow> Inl e | Inr q \<Rightarrow> Inr (round_half_even q))"

definition exact_rounded_font_size :: "str \<Rightarrow> int" where
  "exact_rounded_font_size text =
     round_half_even (100 / (1 + 5 / 100 * of_int \<bar>20 - int (length text)\<bar>))"

section \<open>Properties\<close>

subsection \<open>Rounding to double precision\<close>

text \<open>
  The facts used below: rounding is monotone and odd, it fixes every number with at most
  53 significant bits, and in the normal range its relative error is at most \<open>2 powi (- 53)\<close>.
\<close>

lemma round_half_even_of_int: "round_half_even (of_int m) = m"
  by (simp add: round_half_even_def)

lemma round_half_even_cases: "round_half_even x = \<lfloor>x\<rfloor> \<or> round_half_even x = \<lfloor>x\<rfloor> + 1"
  by (simp add: round_half_even_def Let_def)

lemma round_half_even_mono: 
  assumes "x \<le> y" shows "round_half_even x \<le> round_half_even y"
proof (cases "\<lfloor>x\<rfloor> = \<lfloor>y\<rfloor>")
  case True
  then show ?thesis using assms by (auto simp add: round_half_even_def Let_def)
next
  case False
  then have "\<lfloor>x\<rfloor> + 1 \<le> \<lfloor>y\<rfloor>" using floor_mono[OF assms] by linarith
  moreover have "round_half_even x \<le> \<lfloor>x\<rfloor> + 1" using round_half_even_cases[of x] by linarith
  moreover have "\<lfloor>y\<rfloor> \<le> round_half_even y" using round_half_even_cases[of y] by linarith
  ultimately show ?thesis by linarith
qed

lemma round_half_even_error: "\<bar>of_int (round_half_even x) - x\<bar> \<le> 1 / 2"
proof -
  have "of_int \<lfloor>x\<rfloor> \<le> x" "x < of_int \<lfloor>x\<rfloor> + 1" by linarith+
  then show ?thesis by (auto simp add: round_half_even_def Let_def abs_le_iff)
qed

lemma powi_two_mono: "i \<le> j \<Longrightarrow> (2::rat) powi i \<le> 2 powi j"
  by (simp add: power_int_increasing)

lemma powi_two_pos: "0 < (2::rat) powi i"
  by simp

lemma powi_two_strict: "(2::rat) powi i < 2 powi j \<Longrightarrow> i < j"
  by (metis powi_two_mono not_le)

lemma bitlen_ge_one: "0 < a \<Longrightarrow> 1 \<le> bitlen a"
proof (rule ccontr)
  assume a: "0 < a" and "\<not> 1 \<le> bitlen a"
  then have "nat (bitlen a) = 0" by simp
  with bitlen_bounds[OF a] show False by auto
qed

lemma of_int_bitlen_bounds:
  assumes "0 < a"
  shows "(2::rat) powi (bitlen a - 1) \<le> of_int a" and "(of_int a :: rat) < 2 powi (bitlen a)"
proof -
  have l: "1 \<le> bitlen a" by (rule bitlen_ge_one[OF assms])
  have "(of_int (2 ^ nat (bitlen a - 1)) :: rat) \<le> of_int a"
    using bitlen_bounds[OF assms] by (simp only: of_int_le_iff)
  then show "(2::rat) powi (bitlen a - 1) \<le> of_int a"
    using l by (simp add: power_int_def)
  have "(of_int a :: rat) < of_int (2 ^ nat (bitlen a))"
    using bitlen_bounds[OF assms] by (simp only: of_int_less_iff)
  then show "(of_int a :: rat) < 2 powi (bitlen a)"
    using l by (simp add: power_int_def)
qed

lemma binary_exponent_bounds:
  assumes "0 < x"
  shows "2 powi (binary_exponent x) \<le> x \<and> x < 2 powi (binary_exponent x + 1)"
proof -
  obtain a b where q: "quotient_of x = (a, b)" by (cases "quotient_of x")
  then have b: "0 < b" and x: "x = of_int a / of_int b"
    by (auto simp: quotient_of_denom_pos quotient_of_div)
  with assms have a: "0 < a" by (simp add: zero_less_divide_iff)
  define k where "k = bitlen a - bitlen b"
  have bpos: "(0::rat) < of_int b" using b by simp
  have "x < 2 powi (bitlen a) / 2 powi (bitlen b - 1)"
    unfolding x using of_int_bitlen_bounds[OF a] of_int_bitlen_bounds[OF b] bpos a
    by (intro frac_less) auto
  also have "\<dots> = 2 powi (k + 1)"
    by (simp add: k_def power_int_diff[symmetric] algebra_simps)
  finally have up: "x < 2 powi (k + 1)" .
  have "2 powi (bitlen a - 1) / 2 powi (bitlen b) < x"
    unfolding x using of_int_bitlen_bounds[OF a] of_int_bitlen_bounds[OF b] bpos a
    by (intro frac_less2) auto
  moreover have "2 powi (bitlen a - 1) / 2 powi (bitlen b) = (2::rat) powi (k - 1)"
    by (simp add: k_def power_int_diff[symmetric] algebra_simps)
  ultimately have lo: "2 powi (k - 1) < x" by simp
  have be: "binary_exponent x = (if 2 powi k \<le> x then k else k - 1)"
    by (simp add: binary_exponent_def q k_def Let_def)
  show ?thesis
  proof (cases "2 powi k \<le> x")
    case True
    then show ?thesis using up be by simp
  next
    case False
    then show ?thesis using lo be by simp
  qed
qed

lemma binary_exponent_unique:
  assumes "2 powi e \<le> x" and "x < 2 powi (e + 1)"
  shows "binary_exponent x = e"
proof -
  have x: "0 < x" using assms(1) powi_two_pos[of e] by linarith
  let ?b = "binary_exponent x"
  have "(2::rat) powi e < 2 powi (?b + 1)" using assms(1) binary_exponent_bounds[OF x] by linarith
  then have "e < ?b + 1" by (rule powi_two_strict)
  moreover have "(2::rat) powi ?b < 2 powi (e + 1)" using assms(2) binary_exponent_bounds[OF x] by linarith
  then have "?b < e + 1" by (rule powi_two_strict)
  ultimately show ?thesis by linarith
qed

lemma binary_exponent_mono:
  assumes "0 < x" and "x \<le> y"
  shows "binary_exponent x \<le> binary_exponent y"
proof -
  have y: "0 < y" using assms by linarith
  have "(2::rat) powi (binary_exponent x) < 2 powi (binary_exponent y + 1)"
    using binary_exponent_bounds[OF assms(1)] binary_exponent_bounds[OF y] assms(2) by linarith
  then have "binary_exponent x < binary_exponent y + 1" by (rule powi_two_strict)
  then show ?thesis by linarith
qed


lemma binary_exponent_powi: "binary_exponent (2 powi e) = e"
  by (rule binary_exponent_unique) (simp_all add: power_int_add)

lemma powi_two_times_pow: "(2::rat) ^ n * 2 powi j = 2 powi (j + int n)"
  by (simp add: power_int_add)

lemma powi_two_diff: "(2::rat) powi a / 2 powi b = 2 powi (a - b)"
  by (simp add: power_int_diff)

lemma round_to_double_pos:
  assumes "0 < x"
  shows "round_to_double x =
           of_int (round_half_even (x / 2 powi (max (binary_exponent x) (- 1022) - 52)))
             * 2 powi (max (binary_exponent x) (- 1022) - 52)"
  using assms by (simp add: round_to_double_def Let_def)

lemma round_to_double_minus: "round_to_double (- x) = - round_to_double x"
  by (simp add: round_to_double_def Let_def)

lemma round_to_double_zero: "round_to_double 0 = 0"
  by (simp add: round_to_double_def)

lemma round_half_even_nonneg: "0 \<le> x \<Longrightarrow> 0 \<le> round_half_even x"
  using round_half_even_mono[of 0 x] round_half_even_of_int[of 0] by simp

lemma round_to_double_nonneg:
  assumes "0 \<le> x" shows "0 \<le> round_to_double x"
proof (cases "x = 0")
  case True then show ?thesis by (simp add: round_to_double_zero)
next
  case False
  with assms have x: "0 < x" by simp
  show ?thesis
    unfolding round_to_double_pos[OF x] using x
    by (intro mult_nonneg_nonneg) (simp_all add: round_half_even_nonneg)
qed

lemma round_to_double_normal:
  assumes "2 powi e \<le> x" and "x < 2 powi (e + 1)" and "- 1022 \<le> e"
  shows "round_to_double x = of_int (round_half_even (x / 2 powi (e - 52))) * 2 powi (e - 52)"
proof -
  have x: "0 < x" using assms(1) powi_two_pos[of e] by linarith
  have "binary_exponent x = e" using assms(1,2) by (rule binary_exponent_unique)
  then show ?thesis using assms(3) by (simp add: round_to_double_pos[OF x] max_def)
qed

lemma round_to_double_subnormal:
  assumes "0 < x" and "x < 2 powi (- 1022)"
  shows "round_to_double x = of_int (round_half_even (x / 2 powi (- 1074))) * 2 powi (- 1074)"
proof -
  have "(2::rat) powi (binary_exponent x) < 2 powi (- 1022)"
    using binary_exponent_bounds[OF assms(1)] assms(2) by linarith
  then have "binary_exponent x < - 1022" by (rule powi_two_strict)
  then show ?thesis by (simp add: round_to_double_pos[OF assms(1)] max_def)
qed

lemma powi_two_scale: "(of_int (2 ^ n) :: rat) * 2 powi (e - int n) = 2 powi e"
  by (simp add: power_int_diff)

lemma powi_two_split: "(2::rat) powi (a - b) * 2 powi b = 2 powi a"
  by (simp add: power_int_diff)

lemma round_to_double_upper:
  assumes "0 < x"
  shows "round_to_double x \<le> 2 powi (max (binary_exponent x) (- 1022) + 1)"
proof -
  define e where "e = max (binary_exponent x) (- 1022)"
  define c :: int where "c = 2 ^ 53"
  have c: "of_int c * 2 powi (e - 52) = (2::rat) powi (e + 1)"
    unfolding c_def using powi_two_scale[of 53 "e + 1"] by simp
  have "x < 2 powi (binary_exponent x + 1)" using binary_exponent_bounds[OF assms] by simp
  also have "\<dots> \<le> 2 powi (e + 1)" by (rule powi_two_mono) (simp add: e_def)
  finally have "x \<le> of_int c * 2 powi (e - 52)" by (simp add: c)
  then have "x / 2 powi (e - 52) \<le> of_int c" by (simp add: pos_divide_le_eq)
  then have "round_half_even (x / 2 powi (e - 52)) \<le> c"
    using round_half_even_mono round_half_even_of_int by metis
  then have "(of_int (round_half_even (x / 2 powi (e - 52))) :: rat) \<le> of_int c"
    by (simp only: of_int_le_iff)
  then have "of_int (round_half_even (x / 2 powi (e - 52))) * 2 powi (e - 52)
               \<le> of_int c * (2::rat) powi (e - 52)"
    by (intro mult_right_mono) simp_all
  then have "of_int (round_half_even (x / 2 powi (e - 52))) * 2 powi (e - 52) \<le> (2::rat) powi (e + 1)"
    by (simp only: c)
  then show ?thesis by (simp add: round_to_double_pos[OF assms] e_def)
qed

lemma round_to_double_lower:
  assumes "2 powi e \<le> x" and "- 1022 \<le> binary_exponent x"
  shows "2 powi e \<le> round_to_double x"
proof -
  have x: "0 < x" using assms(1) powi_two_pos[of e] by linarith
  define b where "b = binary_exponent x"
  define c :: int where "c = 2 ^ 52"
  have c: "of_int c * 2 powi (b - 52) = (2::rat) powi b"
    unfolding c_def using powi_two_scale[of 52 b] by simp
  have "(2::rat) powi e < 2 powi (b + 1)"
    using binary_exponent_bounds[OF x] assms(1) by (simp add: b_def)
  then have eb: "e \<le> b" using powi_two_strict by fastforce
  have "2 powi b \<le> x" using binary_exponent_bounds[OF x] by (simp add: b_def)
  then have "of_int c * 2 powi (b - 52) \<le> x" by (simp only: c)
  then have "of_int c \<le> x / 2 powi (b - 52)" by (simp add: pos_le_divide_eq)
  then have "c \<le> round_half_even (x / 2 powi (b - 52))"
    using round_half_even_mono round_half_even_of_int by metis
  then have "(of_int c :: rat) \<le> of_int (round_half_even (x / 2 powi (b - 52)))"
    by (simp only: of_int_le_iff)
  then have "of_int c * (2::rat) powi (b - 52)
               \<le> of_int (round_half_even (x / 2 powi (b - 52))) * 2 powi (b - 52)"
    by (intro mult_right_mono) simp_all
  then have "(2::rat) powi b \<le> of_int (round_half_even (x / 2 powi (b - 52))) * 2 powi (b - 52)"
    by (simp only: c)
  moreover have "round_to_double x = of_int (round_half_even (x / 2 powi (b - 52))) * 2 powi (b - 52)"
    using assms(2) by (simp add: round_to_double_pos[OF x] b_def max_def)
  ultimately have "2 powi b \<le> round_to_double x" by (simp only:)
  with powi_two_mono[OF eb] show ?thesis by linarith
qed

lemma round_to_double_mono_pos:
  assumes "0 < x" and "x \<le> y"
  shows "round_to_double x \<le> round_to_double y"
proof -
  have y: "0 < y" using assms by linarith
  define ex ey where "ex = max (binary_exponent x) (- 1022)" and "ey = max (binary_exponent y) (- 1022)"
  have le: "ex \<le> ey" using binary_exponent_mono[OF assms] by (simp add: ex_def ey_def)
  show ?thesis
  proof (cases "ex = ey")
    case True
    have "x / 2 powi (ey - 52) \<le> y / 2 powi (ey - 52)"
      using assms(2) by (intro divide_right_mono) simp_all
    then have "round_half_even (x / 2 powi (ey - 52)) \<le> round_half_even (y / 2 powi (ey - 52))"
      by (rule round_half_even_mono)
    then have "(of_int (round_half_even (x / 2 powi (ey - 52))) :: rat) * 2 powi (ey - 52)
                 \<le> of_int (round_half_even (y / 2 powi (ey - 52))) * 2 powi (ey - 52)"
      by (intro mult_right_mono) simp_all
    then show ?thesis
      using True by (simp add: round_to_double_pos[OF assms(1)] round_to_double_pos[OF y] ex_def ey_def)
  next
    case False
    with le have lt: "ex + 1 \<le> ey" by simp
    then have bey: "ey = binary_exponent y" "- 1022 \<le> binary_exponent y"
      by (auto simp: ex_def ey_def max_def split: if_splits)
    have "round_to_double x \<le> 2 powi (ex + 1)"
      using round_to_double_upper[OF assms(1)] by (simp add: ex_def)
    also have "\<dots> \<le> 2 powi ey" by (rule powi_two_mono[OF lt])
    also have "\<dots> \<le> round_to_double y"
      using binary_exponent_bounds[OF y] bey(1) bey(2) by (intro round_to_double_lower) simp_all
    finally show ?thesis .
  qed
qed

lemma round_to_double_mono:
  assumes "x \<le> y"
  shows "round_to_double x \<le> round_to_double y"
proof -
  consider "0 < x" | "x = 0" | "x < 0" "0 \<le> y" | "x < 0" "y < 0" by linarith
  then show ?thesis
  proof cases
    case 1 then show ?thesis using assms by (rule round_to_double_mono_pos)
  next
    case 2 then show ?thesis using assms round_to_double_nonneg[of y] by (simp add: round_to_double_zero)
  next
    case 3
    then have "0 \<le> round_to_double (- x)" by (intro round_to_double_nonneg) simp
    then have "round_to_double x \<le> 0" using round_to_double_minus[of x] by simp
    with round_to_double_nonneg[OF 3(2)] show ?thesis by linarith
  next
    case 4
    then have "round_to_double (- y) \<le> round_to_double (- x)"
      using assms by (intro round_to_double_mono_pos) simp_all
    then show ?thesis by (simp add: round_to_double_minus)
  qed
qed

lemma round_to_double_exact_pos:
  assumes "0 < m" and "m < 2 ^ 53" and "- 1074 \<le> j"
  shows "round_to_double (of_int m * 2 powi j) = of_int m * 2 powi j"
proof -
  define x :: rat where "x = of_int m * 2 powi j"
  have x: "0 < x" using assms(1) by (simp add: x_def)
  define e where "e = max (binary_exponent x) (- 1022)"
  have "(of_int m :: rat) < of_int (2 ^ 53)" using assms(2) by (simp only: of_int_less_iff)
  then have "x < of_int (2 ^ 53) * 2 powi j" by (simp add: x_def)
  also have "of_int (2 ^ 53) * (2::rat) powi j = 2 powi (j + 53)"
    using powi_two_scale[of 53 "j + 53"] by simp
  finally have "(2::rat) powi (binary_exponent x) < 2 powi (j + 53)"
    using binary_exponent_bounds[OF x] by linarith
  then have "binary_exponent x < j + 53" by (rule powi_two_strict)
  then have ej: "0 \<le> j - (e - 52)" using assms(3) by (simp add: e_def)
  have "x / 2 powi (e - 52) = of_int m * 2 powi (j - (e - 52))"
    by (simp add: x_def powi_two_diff[symmetric])
  also have "\<dots> = of_int (m * 2 ^ nat (j - (e - 52)))"
    using ej by (simp add: power_int_def)
  finally have "round_half_even (x / 2 powi (e - 52)) = m * 2 ^ nat (j - (e - 52))"
    by (simp only: round_half_even_of_int)
  then have "round_to_double x = of_int (m * 2 ^ nat (j - (e - 52))) * 2 powi (e - 52)"
    by (simp add: round_to_double_pos[OF x] e_def)
  also have "\<dots> = of_int m * (2 powi (j - (e - 52)) * 2 powi (e - 52))"
    using ej by (simp add: power_int_def)
  also have "\<dots> = x"
    by (simp only: powi_two_split x_def)
  finally show ?thesis by (simp add: x_def)
qed

lemma round_to_double_exact:
  assumes "\<bar>m\<bar> < 2 ^ 53" and "- 1074 \<le> j"
  shows "round_to_double (of_int m * 2 powi j) = of_int m * 2 powi j"
proof -
  consider "0 < m" | "m = 0" | "m < 0" by linarith
  then show ?thesis
  proof cases
    case 1 then show ?thesis using assms by (intro round_to_double_exact_pos) simp_all
  next
    case 2 then show ?thesis by (simp add: round_to_double_zero)
  next
    case 3
    then have "round_to_double (of_int (- m) * 2 powi j) = of_int (- m) * 2 powi j"
      using assms by (intro round_to_double_exact_pos) simp_all
    then show ?thesis using round_to_double_minus[of "of_int m * 2 powi j"] by simp
  qed
qed

lemma round_to_double_of_int:
  assumes "\<bar>m\<bar> < 2 ^ 53"
  shows "round_to_double (of_int m) = of_int m"
  using round_to_double_exact[OF assms, of 0] by simp

lemma round_to_double_powi:
  assumes "- 1074 \<le> j"
  shows "round_to_double (2 powi j) = 2 powi j"
  using round_to_double_exact[of 1 j] assms by simp

lemma round_to_double_error:
  assumes "2 powi (- 1022) \<le> x"
  shows "\<bar>round_to_double x - x\<bar> \<le> x * 2 powi (- 53)"
proof -
  have x: "0 < x" using assms powi_two_pos[of "- 1022"] by linarith
  define e where "e = binary_exponent x"
  have "(2::rat) powi (- 1022) < 2 powi (e + 1)"
    using binary_exponent_bounds[OF x] assms unfolding e_def by linarith
  then have "- 1022 < e + 1" by (rule powi_two_strict)
  then have e: "- 1022 \<le> e" by simp
  define q :: rat where "q = 2 powi (e - 52)"
  have q: "0 < q" by (simp add: q_def)
  have r: "round_to_double x = of_int (round_half_even (x / q)) * q"
    using e by (simp add: round_to_double_pos[OF x] e_def q_def max_def)
  have "round_to_double x - x = (of_int (round_half_even (x / q)) - x / q) * q"
    using q by (simp add: r algebra_simps)
  then have "\<bar>round_to_double x - x\<bar> = \<bar>of_int (round_half_even (x / q)) - x / q\<bar> * q"
    using q by (simp add: abs_mult)
  also have "\<dots> \<le> 1 / 2 * q"
    using round_half_even_error[of "x / q"] q by (intro mult_right_mono) simp_all
  also have "1 / 2 * q = 2 powi e * 2 powi (- 53)"
    unfolding q_def by (simp add: power_int_diff power_int_minus)
  also have "\<dots> \<le> x * 2 powi (- 53)"
    using binary_exponent_bounds[OF x] by (intro mult_right_mono) (simp_all add: e_def)
  finally show ?thesis .
qed

subsection \<open>Dimension normalisation\<close>

text \<open>
  C1. With \<open>min < max\<close> configured for both dimensions: a value strictly between the bounds
  is returned unchanged; a value at or outside a bound is replaced by one of the two bounds,
  and that bound is at least as close to the value as the other one; the result always lies
  in \<open>[min, max]\<close>. Width and height are treated by the same rule, each against its own
  bounds, and the functions are total: no input raises.
\<close>

theorem dimension_normalization_contract:
  assumes "API_THUMBNAIL_MIN_WIDTH cfg < API_THUMBNAIL_MAX_WIDTH cfg"
    and "API_THUMBNAIL_MIN_HEIGHT cfg < API_THUMBNAIL_MAX_HEIGHT cfg"
  shows "(API_THUMBNAIL_MIN_WIDTH cfg < width \<and> width < API_THUMBNAIL_MAX_WIDTH cfg
            \<longrightarrow> normalize_width cfg width = width)
       \<and> (width \<le> API_THUMBNAIL_MIN_WIDTH cfg \<or> API_THUMBNAIL_MAX_WIDTH cfg \<le> width
            \<longrightarrow> normalize_width cfg width \<in> {API_THUMBNAIL_MIN_WIDTH cfg, API_THUMBNAIL_MAX_WIDTH cfg}
              \<and> \<bar>width - normalize_width cfg width\<bar> \<le> \<bar>width - API_THUMBNAIL_MIN_WIDTH cfg\<bar>
              \<and> \<bar>width - normalize_width cfg width\<bar> \<le> \<bar>width - API_THUMBNAIL_MAX_WIDTH cfg\<bar>)
       \<and> API_THUMBNAIL_MIN_WIDTH cfg \<le> normalize_width cfg width
       \<and> normalize_width cfg width \<le> API_THUMBNAIL_MAX_WIDTH cfg
       \<and> (API_THUMBNAIL_MIN_HEIGHT cfg < height \<and> height < API_THUMBNAIL_MAX_HEIGHT cfg
            \<longrightarrow> normalize_height cfg height = height)
       \<and> (height \<le> API_THUMBNAIL_MIN_HEIGHT cfg \<or> API_THUMBNAIL_MAX_HEIGHT cfg \<le> height
            \<longrightarrow> normalize_height cfg height \<in> {API_THUMBNAIL_MIN_HEIGHT cfg, API_THUMBNAIL_MAX_HEIGHT cfg}
              \<and> \<bar>height - normalize_height cfg height\<bar> \<le> \<bar>height - API_THUMBNAIL_MIN_HEIGHT cfg\<bar>
              \<and> \<bar>height - normalize_height cfg height\<bar> \<le> \<bar>height - API_THUMBNAIL_MAX_HEIGHT cfg\<bar>)
       \<and> API_THUMBNAIL_MIN_HEIGHT cfg \<le> normalize_height cfg height
       \<and> normalize_height cfg height \<le> API_THUMBNAIL_MAX_HEIGHT cfg"
proof -
  have w: "(API_THUMBNAIL_MIN_WIDTH cfg < width \<and> width < API_THUMBNAIL_MAX_WIDTH cfg
            \<longrightarrow> normalize_width cfg width = width)
       \<and> (width \<le> API_THUMBNAIL_MIN_WIDTH cfg \<or> API_THUMBNAIL_MAX_WIDTH cfg \<le> width
            \<longrightarrow> normalize_width cfg width \<in> {API_THUMBNAIL_MIN_WIDTH cfg, API_THUMBNAIL_MAX_WIDTH cfg}
              \<and> \<bar>width - normalize_width cfg width\<bar> \<le> \<bar>width - API_THUMBNAIL_MIN_WIDTH cfg\<bar>
              \<and> \<bar>width - normalize_width cfg width\<bar> \<le> \<bar>width - API_THUMBNAIL_MAX_WIDTH cfg\<bar>)
       \<and> API_THUMBNAIL_MIN_WIDTH cfg \<le> normalize_width cfg width
       \<and> normalize_width cfg width \<le> API_THUMBNAIL_MAX_WIDTH cfg"
    using assms(1) unfolding normalize_width_def Let_def by auto
  have h: "(API_THUMBNAIL_MIN_HEIGHT cfg < height \<and> height < API_THUMBNAIL_MAX_HEIGHT cfg
            \<longrightarrow> normalize_height cfg height = height)
       \<and> (height \<le> API_THUMBNAIL_MIN_HEIGHT cfg \<or> API_THUMBNAIL_MAX_HEIGHT cfg \<le> height
            \<longrightarrow> normalize_height cfg height \<in> {API_THUMBNAIL_MIN_HEIGHT cfg, API_THUMBNAIL_MAX_HEIGHT cfg}
              \<and> \<bar>height - normalize_height cfg height\<bar> \<le> \<bar>height - API_THUMBNAIL_MIN_HEIGHT cfg\<bar>
              \<and> \<bar>height - normalize_height cfg height\<bar> \<le> \<bar>height - API_THUMBNAIL_MAX_HEIGHT cfg\<bar>)
       \<and> API_THUMBNAIL_MIN_HEIGHT cfg \<le> normalize_height cfg height
       \<and> normalize_height cfg height \<le> API_THUMBNAIL_MAX_HEIGHT cfg"
    using assms(2) unfolding normalize_height_def Let_def by auto
  from w h show ?thesis by blast
qed

theorem dimension_normalization_contract_witness:
  "normalize_width \<lparr>API_THUMBNAIL_MIN_WIDTH = 200, API_THUMBNAIL_MAX_WIDTH = 2000,
       API_THUMBNAIL_MIN_HEIGHT = 100, API_THUMBNAIL_MAX_HEIGHT = 1000\<rparr> 1200 = 1200
   \<and> normalize_width \<lparr>API_THUMBNAIL_MIN_WIDTH = 200, API_THUMBNAIL_MAX_WIDTH = 2000,
       API_THUMBNAIL_MIN_HEIGHT = 100, API_THUMBNAIL_MAX_HEIGHT = 1000\<rparr> 1 = 200
   \<and> normalize_height \<lparr>API_THUMBNAIL_MIN_WIDTH = 200, API_THUMBNAIL_MAX_WIDTH = 2000,
       API_THUMBNAIL_MIN_HEIGHT = 100, API_THUMBNAIL_MAX_HEIGHT = 1000\<rparr> 630 = 630
   \<and> normalize_height \<lparr>API_THUMBNAIL_MIN_WIDTH = 200, API_THUMBNAIL_MAX_WIDTH = 2000,
       API_THUMBNAIL_MIN_HEIGHT = 100, API_THUMBNAIL_MAX_HEIGHT = 1000\<rparr> 5000 = 1000"
  using dimension_normalization_contract
      [of "\<lparr>API_THUMBNAIL_MIN_WIDTH = 200, API_THUMBNAIL_MAX_WIDTH = 2000,
            API_THUMBNAIL_MIN_HEIGHT = 100, API_THUMBNAIL_MAX_HEIGHT = 1000\<rparr>" 1200 630]
    dimension_normalization_contract
      [of "\<lparr>API_THUMBNAIL_MIN_WIDTH = 200, API_THUMBNAIL_MAX_WIDTH = 2000,
            API_THUMBNAIL_MIN_HEIGHT = 100, API_THUMBNAIL_MAX_HEIGHT = 1000\<rparr>" 1 5000]
  by auto

text \<open>
  With \<open>min < max\<close> a value at or outside a bound is never at the same distance from both
  bounds, so the tie of the next statement needs bounds that are equal or reversed.
\<close>

lemma no_tie_with_ordered_bounds:
  fixes v lo hi :: int
  assumes "lo < hi" and "v \<le> lo \<or> hi \<le> v"
  shows "\<bar>v - hi\<bar> \<noteq> \<bar>v - lo\<bar>"
  using assms by linarith

text \<open>
  C10. In the branch taken for a value at or outside a bound, equal distances to the two
  bounds give the minimum bound; the maximum bound is the result (and differs from the
  minimum) only when it is strictly closer. Width and height alike.
\<close>

theorem equidistant_value_gets_minimum:
  "((width \<le> API_THUMBNAIL_MIN_WIDTH cfg \<or> API_THUMBNAIL_MAX_WIDTH cfg \<le> width)
      \<and> \<bar>width - API_THUMBNAIL_MAX_WIDTH cfg\<bar> = \<bar>width - API_THUMBNAIL_MIN_WIDTH cfg\<bar>
     \<longrightarrow> normalize_width cfg width = API_THUMBNAIL_MIN_WIDTH cfg)
   \<and> ((width \<le> API_THUMBNAIL_MIN_WIDTH cfg \<or> API_THUMBNAIL_MAX_WIDTH cfg \<le> width)
      \<and> normalize_width cfg width = API_THUMBNAIL_MAX_WIDTH cfg
      \<and> API_THUMBNAIL_MAX_WIDTH cfg \<noteq> API_THUMBNAIL_MIN_WIDTH cfg
     \<longrightarrow> \<bar>width - API_THUMBNAIL_MAX_WIDTH cfg\<bar> < \<bar>width - API_THUMBNAIL_MIN_WIDTH cfg\<bar>)
   \<and> ((height \<le> API_THUMBNAIL_MIN_HEIGHT cfg \<or> API_THUMBNAIL_MAX_HEIGHT cfg \<le> height)
      \<and> \<bar>height - API_THUMBNAIL_MAX_HEIGHT cfg\<bar> = \<bar>height - API_THUMBNAIL_MIN_HEIGHT cfg\<bar>
     \<longrightarrow> normalize_height cfg height = API_THUMBNAIL_MIN_HEIGHT cfg)
   \<and> ((height \<le> API_THUMBNAIL_MIN_HEIGHT cfg \<or> API_THUMBNAIL_MAX_HEIGHT cfg \<le> height)
      \<and> normalize_height cfg height = API_THUMBNAIL_MAX_HEIGHT cfg
      \<and> API_THUMBNAIL_MAX_HEIGHT cfg \<noteq> API_THUMBNAIL_MIN_HEIGHT cfg
     \<longrightarrow> \<bar>height - API_THUMBNAIL_MAX_HEIGHT cfg\<bar> < \<bar>height - API_THUMBNAIL_MIN_HEIGHT cfg\<bar>)"
proof -
  have w1: "(width \<le> API_THUMBNAIL_MIN_WIDTH cfg \<or> API_THUMBNAIL_MAX_WIDTH cfg \<le> width)
      \<and> \<bar>width - API_THUMBNAIL_MAX_WIDTH cfg\<bar> = \<bar>width - API_THUMBNAIL_MIN_WIDTH cfg\<bar>
     \<longrightarrow> normalize_width cfg width = API_THUMBNAIL_MIN_WIDTH cfg"
    by (simp add: normalize_width_def Let_def)
  have w2: "(width \<le> API_THUMBNAIL_MIN_WIDTH cfg \<or> API_THUMBNAIL_MAX_WIDTH cfg \<le> width)
      \<and> normalize_width cfg width = API_THUMBNAIL_MAX_WIDTH cfg
      \<and> API_THUMBNAIL_MAX_WIDTH cfg \<noteq> API_THUMBNAIL_MIN_WIDTH cfg
     \<longrightarrow> \<bar>width - API_THUMBNAIL_MAX_WIDTH cfg\<bar> < \<bar>width - API_THUMBNAIL_MIN_WIDTH cfg\<bar>"
    by (simp add: normalize_width_def Let_def split: if_splits)
  have h1: "(height \<le> API_THUMBNAIL_MIN_HEIGHT cfg \<or> API_THUMBNAIL_MAX_HEIGHT cfg \<le> height)
      \<and> \<bar>height - API_THUMBNAIL_MAX_HEIGHT cfg\<bar> = \<bar>height - API_THUMBNAIL_MIN_HEIGHT cfg\<bar>
     \<longrightarrow> normalize_height cfg height = API_THUMBNAIL_MIN_HEIGHT cfg"
    by (simp add: normalize_height_def Let_def)
  have h2: "(height \<le> API_THUMBNAIL_MIN_HEIGHT cfg \<or> API_THUMBNAIL_MAX_HEIGHT cfg \<le> height)
      \<and> normalize_height cfg height = API_THUMBNAIL_MAX_HEIGHT cfg
      \<and> API_THUMBNAIL_MAX_HEIGHT cfg \<noteq> API_THUMBNAIL_MIN_HEIGHT cfg
     \<longrightarrow> \<bar>height - API_THUMBNAIL_MAX_HEIGHT cfg\<bar> < \<bar>height - API_THUMBNAIL_MIN_HEIGHT cfg\<bar>"
    by (simp add: normalize_height_def Let_def split: if_splits)
  from w1 w2 h1 h2 show ?thesis by blast
qed

theorem equidistant_value_gets_minimum_witness:
  "normalize_width \<lparr>API_THUMBNAIL_MIN_WIDTH = 1000, API_THUMBNAIL_MAX_WIDTH = 200,
       API_THUMBNAIL_MIN_HEIGHT = 630, API_THUMBNAIL_MAX_HEIGHT = 630\<rparr> 600 = 1000
   \<and> normalize_height \<lparr>API_THUMBNAIL_MIN_WIDTH = 1000, API_THUMBNAIL_MAX_WIDTH = 200,
       API_THUMBNAIL_MIN_HEIGHT = 630, API_THUMBNAIL_MAX_HEIGHT = 630\<rparr> 700 = 630"
  using equidistant_value_gets_minimum
      [of 600 "\<lparr>API_THUMBNAIL_MIN_WIDTH = 1000, API_THUMBNAIL_MAX_WIDTH = 200,
            API_THUMBNAIL_MIN_HEIGHT = 630, API_THUMBNAIL_MAX_HEIGHT = 630\<rparr>" 700]
  by simp

subsection \<open>Colour resolution\<close>

lemma is_hex_digit_iff:
  "is_hex_digit c \<longleftrightarrow>
     c \<in> {48, 49, 50, 51, 52, 53, 54, 55, 56, 57, 97, 98, 99, 100, 101, 102, 65, 66, 67, 68, 69, 70}"
  by (auto simp: is_hex_digit_def py_str_def)

lemma digit_value_table:
  "map digit_value (py_str ''0123456789abcdefABCDEF'') =
     [0, 1, 2, 3, 4, 5, 6, 7, 8, 9, 10, 11, 12, 13, 14, 15, 10, 11, 12, 13, 14, 15]"
  by (simp add: digit_value_def py_str_def)

lemma ascii_lower_hex_digit:
  assumes "is_hex_digit c"
  shows "is_hex_digit (ascii_lower c)" and "digit_value (ascii_lower c) = digit_value c"
  using assms by (auto simp: is_hex_digit_iff ascii_lower_def digit_value_def)

lemma hex_digit_plain:
  assumes "is_hex_digit c"
  shows "\<not> is_space c" and "c \<noteq> 95" and "c \<noteq> 43" and "c \<noteq> 45"
    and "c \<noteq> 120" and "c \<noteq> 88" and "c \<noteq> 35" and "c < 128" and "to_ascii c = c"
  using assms by (auto simp: is_hex_digit_iff is_space_def to_ascii_def)

lemma digit_value_range: "is_hex_digit c \<Longrightarrow> 0 \<le> digit_value c \<and> digit_value c \<le> 15"
  by (auto simp: is_hex_digit_iff digit_value_def)

lemma parse_base16_two_digits:
  assumes "is_hex_digit a" and "is_hex_digit b"
  shows "parse_base16 [a, b] = Inr (16 * digit_value a + digit_value b)"
  using assms hex_digit_plain[OF assms(1)] hex_digit_plain[OF assms(2)]
  by (simp add: parse_base16_def)

lemma int_base16_two_digits:
  assumes "is_hex_digit a" and "is_hex_digit b"
  shows "int_base16 [a, b] = Inr (16 * digit_value a + digit_value b)"
  by (simp add: int_base16_def hex_digit_plain(9)[OF assms(1)] hex_digit_plain(9)[OF assms(2)]
      parse_base16_two_digits[OF assms])

lemma length_six:
  assumes "length s = 6"
  obtains a b c d e f where "s = [a, b, c, d, e, f]"
proof -
  from assms obtain a s1 where "s = a # s1" "length s1 = 5" by (cases s) auto
  moreover then obtain b s2 where "s1 = b # s2" "length s2 = 4" by (cases s1) auto
  moreover then obtain c s3 where "s2 = c # s3" "length s3 = 3" by (cases s2) auto
  moreover then obtain d s4 where "s3 = d # s4" "length s4 = 2" by (cases s3) auto
  moreover then obtain e s5 where "s4 = e # s5" "length s5 = 1" by (cases s4) auto
  moreover then obtain f where "s5 = [f]" by (cases s5) auto
  ultimately show ?thesis using that by simp
qed

lemma lower_ascii:
  assumes "\<forall>c\<in>set s. c < 128"
  shows "lower s = map ascii_lower s"
  using assms by (simp add: lower_def list_all_iff)

lemma hex_to_rgb_six_digits:
  assumes "length s = 6" and "\<forall>c\<in>set s. is_hex_digit c"
  shows "hex_to_rgb (lower s) = Inr (decoded_rgb s)"
proof -
  obtain a b c d e f where s: "s = [a, b, c, d, e, f]" using assms(1) by (rule length_six)
  with assms(2) have h: "is_hex_digit a" "is_hex_digit b" "is_hex_digit c"
    "is_hex_digit d" "is_hex_digit e" "is_hex_digit f" by simp_all
  have "\<forall>c\<in>set s. c < 128" using assms(2) hex_digit_plain(8) by blast
  then have "lower s = map ascii_lower s" by (rule lower_ascii)
  then show ?thesis
    by (simp add: s hex_to_rgb_def slice_def decoded_rgb_def
        int_base16_two_digits ascii_lower_hex_digit h)
qed

lemma lstrip_hex:
  assumes "length s = 6" and "\<forall>c\<in>set s. is_hex_digit c"
  shows "lstrip s (py_str ''#'') = s" and "lstrip (ord_char CHR ''#'' # s) (py_str ''#'') = s"
proof -
  obtain a r where s: "s = a # r" using assms(1) by (cases s) auto
  with assms(2) have "a \<noteq> 35" using hex_digit_plain(7)[of a] by simp
  then show "lstrip s (py_str ''#'') = s" and "lstrip (ord_char CHR ''#'' # s) (py_str ''#'') = s"
    by (simp_all add: lstrip_def py_str_def s)
qed

lemma resolve_color_six_digits:
  assumes "length s = 6" and "\<forall>c\<in>set s. is_hex_digit c"
  shows "resolve_color (Some s) g = (Inr (decoded_rgb s), g)"
    and "resolve_color (Some (ord_char CHR ''#'' # s)) g = (Inr (decoded_rgb s), g)"
proof -
  show "resolve_color (Some s) g = (Inr (decoded_rgb s), g)"
    by (simp add: resolve_color_def lstrip_hex(1)[OF assms] hex_to_rgb_six_digits[OF assms])
  have "lstrip (35 # s) (py_str ''#'') = s" using lstrip_hex(2)[OF assms] by simp
  then show "resolve_color (Some (ord_char CHR ''#'' # s)) g = (Inr (decoded_rgb s), g)"
    by (simp add: resolve_color_def hex_to_rgb_six_digits[OF assms])
qed

lemmas color_eval = resolve_color_def hex_to_rgb_def lstrip_def lower_def ascii_lower_def slice_def
  int_base16_def parse_base16_def to_ascii_def is_space_def is_hex_digit_def digit_value_def
  py_str_def

text \<open>
  C4. A string of exactly six hexadecimal digits, with or without one leading \<^verbatim>\<open>#\<close>, is
  resolved to the three bytes it denotes, whatever the state of the random generator, and
  that state is left untouched: there is no random fallback. The two examples of the
  specification are instances. In the handler the top colour is decoded whatever the bottom
  colour is, and the bottom colour whatever the top colour is.
\<close>

theorem valid_hex_color_is_decoded:
  assumes "length s = 6" and "\<forall>c\<in>set s. is_hex_digit c"
  shows "resolve_color (Some s) g = (Inr (decoded_rgb s), g)
       \<and> resolve_color (Some (ord_char CHR ''#'' # s)) g = (Inr (decoded_rgb s), g)
       \<and> resolve_color (Some (py_str ''#FF0000'')) g = (Inr (255, 0, 0), g)
       \<and> resolve_color (Some (py_str ''00ff00'')) g = (Inr (0, 255, 0), g)
       \<and> get_thumbnail cfg textsize g width height (Some s) bottom_color text =
           (case resolve_color bottom_color g of
              (Inl e, g2) \<Rightarrow> (Inl e, g2)
            | (Inr bottom_rgb, g2) \<Rightarrow>
                (render_response textsize (normalize_width cfg width) (normalize_height cfg height)
                   (decoded_rgb s) bottom_rgb text, g2))
       \<and> get_thumbnail cfg textsize g width height top_color (Some s) text =
           (case resolve_color top_color g of
              (Inl e, g1) \<Rightarrow> (Inl e, g1)
            | (Inr top_rgb, g1) \<Rightarrow>
                (render_response textsize (normalize_width cfg width) (normalize_height cfg height)
                   top_rgb (decoded_rgb s) text, g1))"
proof -
  have a: "resolve_color (Some (py_str ''#FF0000'')) g = (Inr (255, 0, 0), g)"
    by (simp add: color_eval)
  have b: "resolve_color (Some (py_str ''00ff00'')) g = (Inr (0, 255, 0), g)"
    by (simp add: color_eval)
  have c: "get_thumbnail cfg textsize g width height (Some s) bottom_color text =
           (case resolve_color bottom_color g of
              (Inl e, g2) \<Rightarrow> (Inl e, g2)
            | (Inr bottom_rgb, g2) \<Rightarrow>
                (render_response textsize (normalize_width cfg width) (normalize_height cfg height)
                   (decoded_rgb s) bottom_rgb text, g2))"
    by (simp add: get_thumbnail_def resolve_color_six_digits(1)[OF assms])
  have d: "get_thumbnail cfg textsize g width height top_color (Some s) text =
           (case resolve_color top_color g of
              (Inl e, g1) \<Rightarrow> (Inl e, g1)
            | (Inr top_rgb, g1) \<Rightarrow>
                (render_response textsize (normalize_width cfg width) (normalize_height cfg height)
                   top_rgb (decoded_rgb s) text, g1))"
    by (simp add: get_thumbnail_def resolve_color_six_digits(1)[OF assms] split: prod.splits sum.splits)
  show ?thesis using resolve_color_six_digits[OF assms] a b c d by simp
qed

theorem valid_hex_color_is_decoded_witness:
  "resolve_color (Some (py_str ''1a2B3c'')) id = (Inr (26, 43, 60), id)
   \<and> resolve_color (Some (py_str ''#1a2B3c'')) id = (Inr (26, 43, 60), id)"
  using valid_hex_color_is_decoded[of "py_str ''1a2B3c''" id]
  by (simp add: decoded_rgb_def digit_value_def is_hex_digit_def py_str_def)

text \<open>
  How the parser treats the slices, which have at most two characters.
\<close>

lemma space_plain:
  assumes "is_space c"
  shows "\<not> is_hex_digit c" and "c \<noteq> 95" and "c \<noteq> 43" and "c \<noteq> 45"
    and "c \<noteq> 120" and "c \<noteq> 88" and "c \<noteq> 48"
  using assms by (auto simp: is_hex_digit_iff is_space_def)

lemma fixed_chars [simp]:
  "\<not> is_hex_digit 43" "\<not> is_hex_digit 45" "\<not> is_hex_digit 95"
  "\<not> is_hex_digit 120" "\<not> is_hex_digit 88" "is_hex_digit 48"
  "\<not> is_space 43" "\<not> is_space 45" "\<not> is_space 95"
  "\<not> is_space 120" "\<not> is_space 88" "\<not> is_space 48"
  by (simp_all add: is_hex_digit_iff is_space_def)

lemma parse_base16_error: "parse_base16 s = Inl e \<Longrightarrow> e = ValueError"
  by (auto simp: parse_base16_def Let_def split: prod.splits if_splits)

lemma parse_base16_nil: "parse_base16 [] = Inl ValueError"
  by (simp add: parse_base16_def)

lemma parse_base16_one:
  "parse_base16 [a] = (if is_hex_digit a then Inr (digit_value a) else Inl ValueError)"
  using hex_digit_plain[of a] space_plain[of a]
  by (cases "is_space a"; cases "is_hex_digit a"; auto simp add: parse_base16_def)

lemma parse_base16_space: "is_space a \<Longrightarrow> parse_base16 (a # s) = parse_base16 s"
  by (simp add: parse_base16_def)

lemma parse_base16_hex_two:
  assumes "is_hex_digit a"
  shows "parse_base16 [a, b] =
     (if is_hex_digit b then Inr (16 * digit_value a + digit_value b)
      else if is_space b then Inr (digit_value a) else Inl ValueError)"
proof -
  note a = hex_digit_plain[OF assms]
  consider "is_hex_digit b" | "is_space b" | "\<not> is_hex_digit b" "\<not> is_space b" by blast
  then show ?thesis
  proof cases
    case 1 then show ?thesis using assms a hex_digit_plain[OF 1] by (simp add: parse_base16_def)
  next
    case 2 then show ?thesis using assms a space_plain[OF 2] by (simp add: parse_base16_def)
  next
    case 3 then show ?thesis using assms a by (simp add: parse_base16_def)
  qed
qed

lemma parse_base16_plus_two:
  "parse_base16 [43, b] = (if is_hex_digit b then Inr (digit_value b) else Inl ValueError)"
  using hex_digit_plain[of b] by (simp add: parse_base16_def)

lemma parse_base16_minus_two:
  "parse_base16 [45, b] = (if is_hex_digit b then Inr (- digit_value b) else Inl ValueError)"
  using hex_digit_plain[of b] by (simp add: parse_base16_def)

lemma parse_base16_other_two:
  assumes "\<not> is_hex_digit a" and "\<not> is_space a" and "a \<noteq> 43" and "a \<noteq> 45"
  shows "parse_base16 [a, b] = Inl ValueError"
  using assms by (simp add: parse_base16_def)

lemma parse_base16_two:
  "parse_base16 [a, b] =
     (if is_hex_digit a \<and> is_hex_digit b then Inr (16 * digit_value a + digit_value b)
      else if is_space a \<and> is_hex_digit b then Inr (digit_value b)
      else if is_hex_digit a \<and> is_space b then Inr (digit_value a)
      else if a = 43 \<and> is_hex_digit b then Inr (digit_value b)
      else if a = 45 \<and> is_hex_digit b then Inr (- digit_value b)
      else Inl ValueError)"
proof -
  consider "is_hex_digit a" | "is_space a" | "a = 43" | "a = 45"
    | "\<not> is_hex_digit a" "\<not> is_space a" "a \<noteq> 43" "a \<noteq> 45" by blast
  then show ?thesis
  proof cases
    case 1 then show ?thesis
      using hex_digit_plain[OF 1] space_plain[of b] by (auto simp add: parse_base16_hex_two)
  next
    case 2 then show ?thesis
      using space_plain[OF 2] by (simp add: parse_base16_space parse_base16_one)
  next
    case 3 then show ?thesis by (simp add: parse_base16_plus_two)
  next
    case 4 then show ?thesis by (simp add: parse_base16_minus_two)
  next
    case 5 then show ?thesis by (simp add: parse_base16_other_two)
  qed
qed

lemma slice_length: "length (slice s i j) \<le> j - i"
  by (simp add: slice_def)

lemma short_cases:
  assumes "length s \<le> 2"
  obtains "s = []" | a where "s = [a]" | a b where "s = [a, b]"
proof (cases s)
  case Nil then show ?thesis using that by simp
next
  case (Cons a r)
  show ?thesis
  proof (cases r)
    case Nil with Cons show ?thesis using that by simp
  next
    case (Cons b t)
    with \<open>s = a # r\<close> assms have "s = [a, b]" by simp
    then show ?thesis using that by simp
  qed
qed

lemma parse_base16_short_range:
  assumes "length s \<le> 2" and "parse_base16 s = Inr v"
  shows "- 15 \<le> v \<and> v \<le> 255"
  using assms(1)
proof (cases rule: short_cases)
  case 1 then show ?thesis using assms(2) by (simp add: parse_base16_nil)
next
  case (2 a) then show ?thesis
    using assms(2) digit_value_range[of a] by (auto simp add: parse_base16_one split: if_splits)
next
  case (3 a b) then show ?thesis
    using assms(2) digit_value_range[of a] digit_value_range[of b]
    by (auto simp add: parse_base16_two split: if_splits)
qed

lemma int_base16_error: "int_base16 s = Inl e \<Longrightarrow> e = ValueError"
  unfolding int_base16_def by (rule parse_base16_error)

lemma int_base16_short_range:
  assumes "length s \<le> 2" and "int_base16 s = Inr v"
  shows "- 15 \<le> v \<and> v \<le> 255"
proof -
  have "length (map to_ascii s) \<le> 2" using assms(1) by simp
  then show ?thesis using assms(2) unfolding int_base16_def by (rule parse_base16_short_range)
qed

lemma hex_to_rgb_error: "hex_to_rgb s = Inl e \<Longrightarrow> e = ValueError"
  by (auto simp: hex_to_rgb_def dest: int_base16_error split: sum.splits)

lemma hex_to_rgb_range:
  assumes "hex_to_rgb s = Inr (r, g, b)"
  shows "- 15 \<le> r \<and> r \<le> 255 \<and> - 15 \<le> g \<and> g \<le> 255 \<and> - 15 \<le> b \<and> b \<le> 255"
proof -
  have l: "length (slice s 0 2) \<le> 2" "length (slice s 2 4) \<le> 2" "length (slice s 4 6) \<le> 2"
    using slice_length[of s 0 2] slice_length[of s 2 4] slice_length[of s 4 6] by simp_all
  from assms have "int_base16 (slice s 0 2) = Inr r" "int_base16 (slice s 2 4) = Inr g"
    "int_base16 (slice s 4 6) = Inr b"
    by (auto simp: hex_to_rgb_def split: sum.splits)
  then show ?thesis
    using int_base16_short_range[OF l(1)] int_base16_short_range[OF l(2)]
      int_base16_short_range[OF l(3)] by blast
qed

lemma randint_range:
  assumes "a \<le> b" and "randint a b g = (v, g')"
  shows "a \<le> v \<and> v \<le> b"
proof -
  have "g 0 mod nat (b - a + 1) < nat (b - a + 1)" using assms(1) by (intro mod_less_divisor) simp
  then have "int (g 0 mod nat (b - a + 1)) < int (nat (b - a + 1))" by (simp only: of_nat_less_iff)
  then have "int (g 0 mod nat (b - a + 1)) < b - a + 1" using assms(1) by simp
  then show ?thesis using assms(2) by (auto simp: randint_def)
qed

lemma random_color_range:
  assumes "random_color g = ((r, gr, b), g')"
  shows "0 \<le> r \<and> r \<le> 255 \<and> 0 \<le> gr \<and> gr \<le> 255 \<and> 0 \<le> b \<and> b \<le> 255"
proof -
  obtain r1 g1 where 1: "randint 0 255 g = (r1, g1)" by (cases "randint 0 255 g")
  obtain r2 g2 where 2: "randint 0 255 g1 = (r2, g2)" by (cases "randint 0 255 g1")
  obtain r3 g3 where 3: "randint 0 255 g2 = (r3, g3)" by (cases "randint 0 255 g2")
  have "r = r1" "gr = r2" "b = r3" using assms by (simp_all add: random_color_def 1 2 3)
  then show ?thesis
    using randint_range[OF _ 1] randint_range[OF _ 2] randint_range[OF _ 3] by simp
qed

lemma resolve_color_total:
  obtains r gr b g' where "resolve_color color g = (Inr (r, gr, b), g')"
    and "- 15 \<le> r" "r \<le> 255" "- 15 \<le> gr" "gr \<le> 255" "- 15 \<le> b" "b \<le> 255"
proof -
  obtain r0 gr0 b0 g0 where rc: "random_color g = ((r0, gr0, b0), g0)"
    by (metis prod.exhaust)
  note rr = random_color_range[OF rc]
  show ?thesis
  proof (cases color)
    case None
    then have "resolve_color color g = (Inr (r0, gr0, b0), g0)" by (simp add: resolve_color_def rc)
    then show ?thesis using rr by (intro that[of r0 gr0 b0 g0]) simp_all
  next
    case (Some s)
    show ?thesis
    proof (cases "hex_to_rgb (lower (lstrip s (py_str ''#'')))")
      case (Inl e)
      then have "e = ValueError" by (rule hex_to_rgb_error)
      then have "resolve_color color g = (Inr (r0, gr0, b0), g0)"
        by (simp add: resolve_color_def Some Inl rc)
      then show ?thesis using rr by (intro that[of r0 gr0 b0 g0]) simp_all
    next
      case (Inr c)
      obtain r gr b where c: "c = (r, gr, b)" by (cases c)
      have "resolve_color color g = (Inr (r, gr, b), g)" by (simp add: resolve_color_def Some Inr c)
      then show ?thesis using hex_to_rgb_range[OF Inr[unfolded c]] by (intro that[of r gr b g]) simp_all
    qed
  qed
qed

text \<open>
  The three malformed strings that the specification names are replaced by a random
  colour.
\<close>

lemma named_malformed_colors_fall_back:
  "resolve_color (Some (py_str ''zzzzzz'')) g = (Inr (fst (random_color g)), snd (random_color g))"
  "resolve_color (Some (py_str ''12'')) g = (Inr (fst (random_color g)), snd (random_color g))"
  "resolve_color (Some (py_str '''')) g = (Inr (fst (random_color g)), snd (random_color g))"
  by (simp_all add: color_eval split: prod.splits)

text \<open>
  Decimal digits of any script are accepted where hexadecimal digits are meant: six
  Arabic-Indic digits one, or six fullwidth digits one, are decoded as \<^verbatim>\<open>111111\<close>.
\<close>

lemma to_lower_full_digit_one: "to_lower_full 1633 = [1633]" "to_lower_full 65297 = [65297]"
  by (simp_all add: to_lower_full_def lowercase_runs_def)

lemma to_ascii_digit_one: "to_ascii 1633 = 49" "to_ascii 65297 = 49"
  by (simp_all add: to_ascii_def unicode_space_def in_ranges_def to_decimal_def decimal_zeros_def)

lemma unicode_digits_are_decoded:
  "resolve_color (Some [1633, 1633, 1633, 1633, 1633, 1633]) g = (Inr (17, 17, 17), g)"
  "resolve_color (Some [65297, 65297, 65297, 65297, 65297, 65297]) g = (Inr (17, 17, 17), g)"
  by (simp_all add: resolve_color_def hex_to_rgb_def lstrip_def lower_def slice_def py_str_def
      to_lower_full_digit_one int_base16_def to_ascii_digit_one parse_base16_def is_space_def
      is_hex_digit_def digit_value_def)

text \<open>
  C6. The string \<^verbatim>\<open>-1-1-1\<close> is not six hexadecimal digits, yet its three slices are the
  signed literals \<^verbatim>\<open>-1\<close>, which \<^verbatim>\<open>int(s, 16)\<close> accepts: no \<^verbatim>\<open>ValueError\<close>, no fallback, and
  the resolved triple has the channel \<open>-1\<close>, outside \<open>[0, 255]\<close>.
\<close>

theorem signed_slices_give_negative_channels:
  "resolve_color (Some (py_str ''-1-1-1'')) g = (Inr (- 1, - 1, - 1), g)"
  by (simp add: color_eval)

text \<open>
  C7. The string \<^verbatim>\<open>12345\<close> has the wrong length, five characters, yet there is no
  fallback: it is decoded, with the last byte read from the single character \<^verbatim>\<open>5\<close>, and
  no random number is drawn.
\<close>

theorem five_digit_color_is_decoded:
  "resolve_color (Some (py_str ''12345'')) id = (Inr (18, 52, 5), id)
   \<and> resolve_color (Some (py_str ''12345'')) id \<noteq>
       (Inr (fst (random_color id)), snd (random_color id))"
  by (simp add: color_eval random_color_def randint_def)

subsection \<open>The gradient\<close>

text \<open>No operation of the interpolation overflows when the channels are small.\<close>

lemma round_to_double_abs_le:
  assumes "\<bar>x\<bar> \<le> y" and "round_to_double y = y"
  shows "\<bar>round_to_double x\<bar> \<le> y"
proof -
  have "round_to_double x \<le> round_to_double y"
    using assms(1) by (intro round_to_double_mono) linarith
  moreover have "round_to_double (- y) \<le> round_to_double x"
    using assms(1) by (intro round_to_double_mono) linarith
  ultimately show ?thesis using assms(2) by (simp add: round_to_double_minus abs_le_iff)
qed

lemma to_double_ok:
  assumes "\<bar>x\<bar> \<le> y" and "round_to_double y = y" and "y < 2 ^ 1024"
  shows "to_double x = Inr (round_to_double x)"
  using round_to_double_abs_le[OF assms(1,2)] assms(3) by (simp add: to_double_def)

lemma to_double_small:
  assumes "\<bar>x\<bar> \<le> of_int n" and "\<bar>n\<bar> < 2 ^ 53"
  shows "to_double x = Inr (round_to_double x)" and "\<bar>round_to_double x\<bar> \<le> of_int n"
proof -
  have r: "round_to_double (of_int n) = of_int n" using assms(2) by (rule round_to_double_of_int)
  have "(of_int n :: rat) \<le> of_int \<bar>n\<bar>" by simp
  also have "(of_int \<bar>n\<bar> :: rat) < of_int (2 ^ 53)" using assms(2) by (simp only: of_int_less_iff)
  also have "(of_int (2 ^ 53) :: rat) < 2 ^ 1024" by simp
  finally have "(of_int n :: rat) < 2 ^ 1024" .
  then show "to_double x = Inr (round_to_double x)" using assms(1) r by (intro to_double_ok)
  show "\<bar>round_to_double x\<bar> \<le> of_int n" using assms(1) r by (rule round_to_double_abs_le)
qed

lemma float_of_int_small:
  assumes "\<bar>n\<bar> < 2 ^ 53"
  shows "float_of_int n = Inr (of_int n)"
proof -
  have "\<bar>(of_int n :: rat)\<bar> \<le> of_int \<bar>n\<bar>" by simp
  moreover have "\<bar>\<bar>n\<bar>\<bar> < 2 ^ 53" using assms by simp
  ultimately have "to_double (of_int n) = Inr (round_to_double (of_int n))" by (rule to_double_small)
  then show ?thesis using round_to_double_of_int[OF assms] by (simp add: float_of_int_def)
qed

lemma int_truediv_fraction:
  assumes "0 \<le> y" and "y < h"
  shows "int_truediv y h = Inr (round_to_double (of_int y / of_int h))"
    and "0 \<le> round_to_double (of_int y / of_int h)"
    and "round_to_double (of_int y / of_int h) \<le> 1"
proof -
  have h: "(0::rat) < of_int h" using assms by simp
  have q: "(0::rat) \<le> of_int y / of_int h" "(of_int y :: rat) / of_int h \<le> 1"
    using assms h by (simp_all add: divide_le_eq_1)
  then have "\<bar>(of_int y :: rat) / of_int h\<bar> \<le> of_int 1" by simp
  from to_double_small[OF this] show "int_truediv y h = Inr (round_to_double (of_int y / of_int h))"
    using assms by (simp add: int_truediv_def)
  show "0 \<le> round_to_double (of_int y / of_int h)" using q(1) by (rule round_to_double_nonneg)
  have "round_to_double (of_int y / of_int h) \<le> round_to_double (of_int 1)"
    using q(2) by (intro round_to_double_mono) simp
  then show "round_to_double (of_int y / of_int h) \<le> 1"
    using round_to_double_of_int[of 1] by simp
qed

lemma gradient_channel_value:
  assumes "\<bar>c1\<bar> \<le> 255" and "\<bar>c2\<bar> \<le> 255" and "0 \<le> r" and "r \<le> 1"
  shows "gradient_channel c1 c2 r =
           Inr (int_of_float (round_to_double
              (round_to_double (of_int c1 * round_to_double (1 - r))
               + round_to_double (of_int c2 * r))))"
proof -
  define s where "s = round_to_double (1 - r)"
  define a where "a = round_to_double (of_int c1 * s)"
  define b where "b = round_to_double (of_int c2 * r)"
  have "\<bar>1 - r\<bar> \<le> of_int 1" using assms(3,4) by simp
  from to_double_small[OF this] have s: "to_double (1 - r) = Inr s" "\<bar>s\<bar> \<le> 1"
    by (simp_all add: s_def)
  have C1: "\<bar>(of_int c1 :: rat)\<bar> \<le> 255" "\<bar>(of_int c2 :: rat)\<bar> \<le> 255"
    using assms(1,2) by (simp_all add: abs_le_iff)
  have "\<bar>of_int c1 * s\<bar> \<le> 255 * 1"
    unfolding abs_mult using C1(1) s(2) by (intro mult_mono) simp_all
  then have "\<bar>of_int c1 * s\<bar> \<le> of_int 255" by simp
  from to_double_small[OF this] have a: "to_double (of_int c1 * s) = Inr a" "\<bar>a\<bar> \<le> 255"
    by (simp_all add: a_def)
  have "\<bar>of_int c2 * r\<bar> \<le> 255 * 1"
    unfolding abs_mult using C1(2) assms(3,4) by (intro mult_mono) simp_all
  then have "\<bar>of_int c2 * r\<bar> \<le> of_int 255" by simp
  from to_double_small[OF this] have b: "to_double (of_int c2 * r) = Inr b" "\<bar>b\<bar> \<le> 255"
    by (simp_all add: b_def)
  have "\<bar>a + b\<bar> \<le> of_int 510" using a(2) b(2) by simp
  from to_double_small[OF this] have ab: "to_double (a + b) = Inr (round_to_double (a + b))"
    by simp
  have f: "float_of_int 1 = Inr 1" "float_of_int c1 = Inr (of_int c1)" "float_of_int c2 = Inr (of_int c2)"
    using float_of_int_small[of 1] float_of_int_small[of c1] float_of_int_small[of c2] assms(1,2)
    by simp_all
  show ?thesis
    by (simp add: gradient_channel_def int_sub_float_def int_mul_float_def float_sub_def
        float_mul_def float_add_def f s(1) a(1) b(1) ab s_def[symmetric] a_def[symmetric]
        b_def[symmetric])
qed

text \<open>The loop draws every row once, in full.\<close>

lemma map_if_replicate:
  assumes "\<forall>x<n. P x"
  shows "map (\<lambda>x. if P x then c else f x) [0..<n] = replicate n c"
  using assms by (intro nth_equalityI) simp_all

lemma draw_line_rows:
  assumes "0 \<le> y" and "nat y < length (image_rows img)" and "0 \<le> w"
    and "length (image_rows img ! nat y) = nat w"
  shows "image_rows (draw_line img 0 y w col) = (image_rows img)[nat y := replicate (nat w) (ink col)]"
proof -
  have "\<forall>x<nat w. min 0 w \<le> int x \<and> int x \<le> max 0 w" using assms(3) by auto
  then have "map (\<lambda>x. if min 0 w \<le> int x \<and> int x \<le> max 0 w then ink col
                      else image_rows img ! nat y ! x) [0..<nat w] = replicate (nat w) (ink col)"
    by (rule map_if_replicate)
  then show ?thesis using assms(1,2,4) by (simp add: draw_line_def)
qed

lemma draw_line_other:
  "image_size (draw_line img x0 y x1 col) = image_size img"
  "image_texts (draw_line img x0 y x1 col) = image_texts img"
  by (simp_all add: draw_line_def)

lemma gradient_loop_fold:
  assumes "\<forall>y\<in>set ys. \<exists>r col. int_truediv y h = Inr r \<and> gradient_color c1 c2 r = Inr col"
  shows "gradient_loop w h c1 c2 ys img =
           Inr (foldl (\<lambda>im y. draw_line im 0 y w
                  (projr (gradient_color c1 c2 (projr (int_truediv y h))))) img ys)"
  using assms
proof (induction ys arbitrary: img)
  case Nil
  then show ?case by simp
next
  case (Cons y ys)
  from Cons.prems obtain r col where rc: "int_truediv y h = Inr r" "gradient_color c1 c2 r = Inr col"
    by auto
  have "gradient_loop w h c1 c2 ys (draw_line img 0 y w col) =
          Inr (foldl (\<lambda>im y. draw_line im 0 y w
                  (projr (gradient_color c1 c2 (projr (int_truediv y h))))) (draw_line img 0 y w col) ys)"
    using Cons.prems by (intro Cons.IH) simp
  then show ?case by (simp add: rc)
qed

lemma fold_draw_line:
  assumes "0 \<le> w" and "\<forall>row\<in>set (image_rows img). length row = nat w"
    and "\<forall>y\<in>set ys. 0 \<le> y \<and> nat y < length (image_rows img)"
  shows "length (image_rows (foldl (\<lambda>im y. draw_line im 0 y w (f y)) img ys)) = length (image_rows img)
       \<and> image_size (foldl (\<lambda>im y. draw_line im 0 y w (f y)) img ys) = image_size img
       \<and> image_texts (foldl (\<lambda>im y. draw_line im 0 y w (f y)) img ys) = image_texts img
       \<and> (\<forall>j<length (image_rows img).
            image_rows (foldl (\<lambda>im y. draw_line im 0 y w (f y)) img ys) ! j =
              (if int j \<in> set ys then replicate (nat w) (ink (f (int j))) else image_rows img ! j))"
  using assms(2,3)
proof (induction ys arbitrary: img)
  case Nil
  then show ?case by simp
next
  case (Cons y ys)
  let ?img1 = "draw_line img 0 y w (f y)"
  have y: "0 \<le> y" "nat y < length (image_rows img)" using Cons.prems(2) by simp_all
  then have "image_rows img ! nat y \<in> set (image_rows img)" by simp
  then have ly: "length (image_rows img ! nat y) = nat w" using Cons.prems(1) by blast
  have rows1: "image_rows ?img1 = (image_rows img)[nat y := replicate (nat w) (ink (f y))]"
    using y assms(1) ly by (rule draw_line_rows)
  have len1: "length (image_rows ?img1) = length (image_rows img)" by (simp add: rows1)
  have inv1: "\<forall>row\<in>set (image_rows ?img1). length row = nat w"
  proof
    fix row assume "row \<in> set (image_rows ?img1)"
    then have "row \<in> insert (replicate (nat w) (ink (f y))) (set (image_rows img))"
      unfolding rows1 using set_update_subset_insert by fastforce
    then show "length row = nat w" using Cons.prems(1) by auto
  qed
  have rng1: "\<forall>z\<in>set ys. 0 \<le> z \<and> nat z < length (image_rows ?img1)"
    using Cons.prems(2) by (simp add: len1)
  note IH = Cons.IH[OF inv1 rng1]
  have "\<forall>j<length (image_rows img).
          image_rows (foldl (\<lambda>im y. draw_line im 0 y w (f y)) ?img1 ys) ! j =
            (if int j \<in> set (y # ys) then replicate (nat w) (ink (f (int j))) else image_rows img ! j)"
  proof (intro allI impI)
    fix j assume j: "j < length (image_rows img)"
    then have "image_rows (foldl (\<lambda>im y. draw_line im 0 y w (f y)) ?img1 ys) ! j =
            (if int j \<in> set ys then replicate (nat w) (ink (f (int j))) else image_rows ?img1 ! j)"
      using IH by (simp add: len1)
    moreover have "image_rows ?img1 ! j =
            (if int j = y then replicate (nat w) (ink (f (int j))) else image_rows img ! j)"
      using j y by (auto simp add: rows1 nth_list_update)
    ultimately show "image_rows (foldl (\<lambda>im y. draw_line im 0 y w (f y)) ?img1 ys) ! j =
            (if int j \<in> set (y # ys) then replicate (nat w) (ink (f (int j))) else image_rows img ! j)"
      by auto
  qed
  then show ?case using IH by (simp add: len1 draw_line_other)
qed

lemma gradient_color_ok:
  assumes "\<bar>r1\<bar> \<le> 255" "\<bar>g1\<bar> \<le> 255" "\<bar>b1\<bar> \<le> 255" "\<bar>r2\<bar> \<le> 255" "\<bar>g2\<bar> \<le> 255" "\<bar>b2\<bar> \<le> 255"
    and "0 \<le> r" and "r \<le> 1"
  shows "\<exists>col. gradient_color (r1, g1, b1) (r2, g2, b2) r = Inr col"
  using gradient_channel_value[OF assms(1) assms(4) assms(7,8)]
    gradient_channel_value[OF assms(2) assms(5) assms(7,8)]
    gradient_channel_value[OF assms(3) assms(6) assms(7,8)]
  by (simp add: gradient_color_def)

lemma upto_range: "y \<in> set [0..h - 1] \<longleftrightarrow> 0 \<le> y \<and> y < h"
  by auto

lemma generate_gradient_rows:
  assumes "0 \<le> w" and "0 \<le> h"
    and "\<bar>r1\<bar> \<le> 255" "\<bar>g1\<bar> \<le> 255" "\<bar>b1\<bar> \<le> 255" "\<bar>r2\<bar> \<le> 255" "\<bar>g2\<bar> \<le> 255" "\<bar>b2\<bar> \<le> 255"
  obtains img where "generate_gradient w h (r1, g1, b1) (r2, g2, b2) = Inr img"
    and "image_size img = (w, h)" and "length (image_rows img) = nat h" and "image_texts img = []"
    and "\<And>y. 0 \<le> y \<Longrightarrow> y < h \<Longrightarrow>
           image_rows img ! nat y =
             replicate (nat w) (ink (projr (gradient_color (r1, g1, b1) (r2, g2, b2)
                (round_to_double (of_int y / of_int h)))))"
proof -
  let ?c1 = "(r1, g1, b1)" and ?c2 = "(r2, g2, b2)"
  let ?img0 = "\<lparr>image_size = (w, h), image_rows = replicate (nat h) (replicate (nat w) (0, 0, 0)),
                 image_texts = []\<rparr> :: image"
  let ?f = "\<lambda>y. projr (gradient_color ?c1 ?c2 (projr (int_truediv y h)))"
  let ?res = "foldl (\<lambda>im y. draw_line im 0 y w (?f y)) ?img0 [0..h - 1]"
  have new: "image_new (w, h) = Inr ?img0" using assms(1,2) by (simp add: image_new_def)
  have ok: "\<forall>y\<in>set [0..h - 1]. \<exists>r col. int_truediv y h = Inr r \<and> gradient_color ?c1 ?c2 r = Inr col"
  proof
    fix y assume "y \<in> set [0..h - 1]"
    then have y: "0 \<le> y" "y < h" by (simp_all add: upto_range)
    from gradient_color_ok[OF assms(3-8) int_truediv_fraction(2,3)[OF y]]
    show "\<exists>r col. int_truediv y h = Inr r \<and> gradient_color ?c1 ?c2 r = Inr col"
      using int_truediv_fraction(1)[OF y] by blast
  qed
  have gg: "generate_gradient w h ?c1 ?c2 = Inr ?res"
    by (simp add: generate_gradient_def new gradient_loop_fold[OF ok])
  have inv: "\<forall>row\<in>set (image_rows ?img0). length row = nat w" by simp
  have rng: "\<forall>y\<in>set [0..h - 1]. 0 \<le> y \<and> nat y < length (image_rows ?img0)"
    by (auto simp add: upto_range)
  note F = fold_draw_line[OF assms(1) inv rng, of ?f]
  show ?thesis
  proof (rule that[OF gg])
    show "image_size ?res = (w, h)" using F by simp
    show "length (image_rows ?res) = nat h" using F by simp
    show "image_texts ?res = []" using F by simp
    fix y :: int assume y: "0 \<le> y" "y < h"
    then have "nat y < length (image_rows ?img0)" by simp
    then have "image_rows ?res ! nat y =
        (if int (nat y) \<in> set [0..h - 1] then replicate (nat w) (ink (?f (int (nat y))))
         else image_rows ?img0 ! nat y)" using F by blast
    then show "image_rows ?res ! nat y =
        replicate (nat w) (ink (projr (gradient_color ?c1 ?c2 (round_to_double (of_int y / of_int h)))))"
      using y int_truediv_fraction(1)[OF y] by (simp add: upto_range)
  qed
qed

text \<open>
  With byte channels the interpolated value stays in \<open>[0, 256)\<close>, so that truncation is
  the floor and the ink is not clipped.
\<close>

lemma round_to_double_abs_error:
  assumes "0 \<le> x" and "x \<le> 256"
  shows "\<bar>round_to_double x - x\<bar> \<le> 2 powi (- 45)"
proof -
  consider "x = 0" | "0 < x" "x < 2 powi (- 1022)" | "2 powi (- 1022) \<le> x"
    using assms(1) by linarith
  then show ?thesis
  proof cases
    case 1
    then show ?thesis by (simp add: round_to_double_zero)
  next
    case 2
    define q :: rat where "q = 2 powi (- 1074)"
    have q: "0 < q" by (simp add: q_def)
    have r: "round_to_double x = of_int (round_half_even (x / q)) * q"
      unfolding q_def by (rule round_to_double_subnormal[OF 2])
    have "round_to_double x - x = (of_int (round_half_even (x / q)) - x / q) * q"
      using q by (simp add: r algebra_simps)
    then have "\<bar>round_to_double x - x\<bar> = \<bar>of_int (round_half_even (x / q)) - x / q\<bar> * q"
      using q by (simp add: abs_mult)
    also have "\<dots> \<le> 1 / 2 * q"
      using round_half_even_error[of "x / q"] q by (intro mult_right_mono) simp_all
    also have "\<dots> \<le> 1 * q" using q by (intro mult_right_mono) simp_all
    also have "\<dots> \<le> 2 powi (- 45)" unfolding q_def mult_1 by (rule powi_two_mono) simp
    finally show ?thesis .
  next
    case 3
    have "\<bar>round_to_double x - x\<bar> \<le> x * 2 powi (- 53)" using 3 by (rule round_to_double_error)
    also have "\<dots> \<le> 256 * 2 powi (- 53)" using assms(2) by (intro mult_right_mono) simp_all
    also have "\<dots> = 2 powi (- 45)" using powi_two_times_pow[of 8 "- 53"] by simp
    finally show ?thesis .
  qed
qed

lemma interpolation_range:
  assumes "0 \<le> c1" "c1 \<le> 255" "0 \<le> c2" "c2 \<le> 255" and "0 \<le> r" "r \<le> 1"
  shows "0 \<le> round_to_double (round_to_double (of_int c1 * round_to_double (1 - r))
                               + round_to_double (of_int c2 * r))"
    and "round_to_double (round_to_double (of_int c1 * round_to_double (1 - r))
                               + round_to_double (of_int c2 * r)) < 256"
proof -
  define eta :: rat where "eta = 2 powi (- 45)"
  define s where "s = round_to_double (1 - r)"
  define a where "a = round_to_double (of_int c1 * s)"
  define b where "b = round_to_double (of_int c2 * r)"
  have eta: "0 < eta" "257 * eta \<le> 7 / 8" by (simp_all add: eta_def)
  have C: "(0::rat) \<le> of_int c1" "(of_int c1 :: rat) \<le> 255" "(0::rat) \<le> of_int c2" "(of_int c2 :: rat) \<le> 255"
    using assms(1-4) by simp_all
  have s0: "0 \<le> s" unfolding s_def using assms(6) by (intro round_to_double_nonneg) simp
  have "\<bar>s - (1 - r)\<bar> \<le> eta"
    unfolding s_def eta_def using assms(5,6) by (intro round_to_double_abs_error) simp_all
  then have s1: "s \<le> 1 - r + eta" by linarith
  have "round_to_double (1 - r) \<le> round_to_double 1"
    using assms(5) by (intro round_to_double_mono) simp
  then have s2: "s \<le> 1" using round_to_double_of_int[of 1] by (simp add: s_def)
  have cs0: "0 \<le> of_int c1 * s" using C(1) s0 by simp
  have "of_int c1 * s \<le> 255 * 1" using C s0 s2 by (intro mult_mono) simp_all
  then have cs1: "of_int c1 * s \<le> 256" by simp
  have a0: "0 \<le> a" unfolding a_def using cs0 by (rule round_to_double_nonneg)
  have "\<bar>a - of_int c1 * s\<bar> \<le> eta"
    unfolding a_def eta_def using cs0 cs1 by (rule round_to_double_abs_error)
  then have "a \<le> of_int c1 * s + eta" by linarith
  also have "of_int c1 * s \<le> of_int c1 * (1 - r + eta)" using C(1) s1 by (rule mult_left_mono[rotated])
  also have "of_int c1 * (1 - r + eta) = of_int c1 * (1 - r) + of_int c1 * eta" by (simp add: algebra_simps)
  also have "of_int c1 * (1 - r) \<le> 255 * (1 - r)" using C(2) assms(6) by (intro mult_right_mono) simp_all
  also have "of_int c1 * eta \<le> 255 * eta" using C(2) eta(1) by (intro mult_right_mono) simp_all
  finally have a1: "a \<le> 255 * (1 - r) + 255 * eta + eta" by simp
  have cr0: "0 \<le> of_int c2 * r" using C(3) assms(5) by simp
  have "of_int c2 * r \<le> 255 * 1" using C assms(5,6) by (intro mult_mono) simp_all
  then have cr1: "of_int c2 * r \<le> 256" by simp
  have b0: "0 \<le> b" unfolding b_def using cr0 by (rule round_to_double_nonneg)
  have "\<bar>b - of_int c2 * r\<bar> \<le> eta"
    unfolding b_def eta_def using cr0 cr1 by (rule round_to_double_abs_error)
  then have "b \<le> of_int c2 * r + eta" by linarith
  also have "of_int c2 * r \<le> 255 * r" using C(4) assms(5) by (intro mult_right_mono) simp_all
  finally have b1: "b \<le> 255 * r + eta" by simp
  have "a + b \<le> 255 + 257 * eta" using a1 b1 by (simp add: algebra_simps)
  then have ab: "a + b \<le> of_int 2047 * 2 powi (- 3)" using eta(2) by simp
  have "round_to_double (a + b) \<le> round_to_double (of_int 2047 * 2 powi (- 3))"
    using ab by (rule round_to_double_mono)
  also have "\<dots> = of_int 2047 * 2 powi (- 3)" by (rule round_to_double_exact) simp_all
  also have "\<dots> < 256" by simp
  finally show "round_to_double (round_to_double (of_int c1 * round_to_double (1 - r))
                               + round_to_double (of_int c2 * r)) < 256"
    by (simp add: a_def b_def s_def)
  have "0 \<le> round_to_double (a + b)" using a0 b0 by (intro round_to_double_nonneg) simp
  then show "0 \<le> round_to_double (round_to_double (of_int c1 * round_to_double (1 - r))
                               + round_to_double (of_int c2 * r))"
    by (simp add: a_def b_def s_def)
qed

lemma gradient_channel_interpolated:
  assumes "0 \<le> c1" "c1 \<le> 255" "0 \<le> c2" "c2 \<le> 255" and "0 \<le> r" "r \<le> 1"
  shows "gradient_channel c1 c2 r = Inr (interpolated_channel c1 c2 r)"
    and "0 \<le> interpolated_channel c1 c2 r" and "interpolated_channel c1 c2 r \<le> 255"
proof -
  note R = interpolation_range[OF assms]
  have "\<bar>c1\<bar> \<le> 255" "\<bar>c2\<bar> \<le> 255" using assms(1-4) by simp_all
  from gradient_channel_value[OF this assms(5,6)] R(1)
  show "gradient_channel c1 c2 r = Inr (interpolated_channel c1 c2 r)"
    by (simp add: interpolated_channel_def int_of_float_def)
  show "0 \<le> interpolated_channel c1 c2 r" using R(1) by (simp add: interpolated_channel_def)
  have "interpolated_channel c1 c2 r < 256"
    unfolding interpolated_channel_def using R(2) by (simp add: floor_less_iff)
  then show "interpolated_channel c1 c2 r \<le> 255" by simp
qed

lemma gradient_color_interpolated:
  assumes "is_rgb color1" and "is_rgb color2" and "0 \<le> r" "r \<le> 1"
  shows "gradient_color color1 color2 r = Inr (interpolated_color color1 color2 r)"
    and "ink (interpolated_color color1 color2 r) = interpolated_color color1 color2 r"
proof -
  obtain r1 g1 b1 where c1: "color1 = (r1, g1, b1)" by (cases color1)
  obtain r2 g2 b2 where c2: "color2 = (r2, g2, b2)" by (cases color2)
  from assms(1,2) have b: "0 \<le> r1" "r1 \<le> 255" "0 \<le> g1" "g1 \<le> 255" "0 \<le> b1" "b1 \<le> 255"
    "0 \<le> r2" "r2 \<le> 255" "0 \<le> g2" "g2 \<le> 255" "0 \<le> b2" "b2 \<le> 255"
    by (simp_all add: is_rgb_def c1 c2)
  note R = gradient_channel_interpolated[OF b(1,2) b(7,8) assms(3,4)]
  note G = gradient_channel_interpolated[OF b(3,4) b(9,10) assms(3,4)]
  note B = gradient_channel_interpolated[OF b(5,6) b(11,12) assms(3,4)]
  show "gradient_color color1 color2 r = Inr (interpolated_color color1 color2 r)"
    by (simp add: gradient_color_def interpolated_color_def c1 c2 R(1) G(1) B(1))
  show "ink (interpolated_color color1 color2 r) = interpolated_color color1 color2 r"
    using R(2,3) G(2,3) B(2,3) by (simp add: ink_def clip8_def interpolated_color_def c1 c2)
qed

lemma interpolated_channel_top:
  assumes "0 \<le> c1" "c1 \<le> 255" "0 \<le> c2" "c2 \<le> 255"
  shows "interpolated_channel c1 c2 0 = c1"
proof -
  have "\<bar>c1\<bar> < 2 ^ 53" using assms by simp
  then show ?thesis
    using round_to_double_of_int[of 1] by (simp add: interpolated_channel_def round_to_double_zero round_to_double_of_int)
qed

lemma gradient_row_interpolated:
  assumes "0 \<le> width" and "is_rgb color1" and "is_rgb color2" and "0 \<le> y" and "y < height"
  shows "gradient_row width height color1 color2 y =
           Some (replicate (nat width)
             (interpolated_color color1 color2 (interpolation_fraction y height)))"
proof -
  obtain r1 g1 b1 where c1: "color1 = (r1, g1, b1)" by (cases color1)
  obtain r2 g2 b2 where c2: "color2 = (r2, g2, b2)" by (cases color2)
  from assms(2,3) have b: "\<bar>r1\<bar> \<le> 255" "\<bar>g1\<bar> \<le> 255" "\<bar>b1\<bar> \<le> 255" "\<bar>r2\<bar> \<le> 255" "\<bar>g2\<bar> \<le> 255" "\<bar>b2\<bar> \<le> 255"
    by (simp_all add: is_rgb_def c1 c2)
  have h: "0 \<le> height" using assms(4,5) by simp
  obtain img where img: "generate_gradient width height (r1, g1, b1) (r2, g2, b2) = Inr img"
    "length (image_rows img) = nat height"
    "\<And>y. 0 \<le> y \<Longrightarrow> y < height \<Longrightarrow> image_rows img ! nat y =
             replicate (nat width) (ink (projr (gradient_color (r1, g1, b1) (r2, g2, b2)
                (round_to_double (of_int y / of_int height)))))"
    using generate_gradient_rows[OF assms(1) h b] by metis
  note t = int_truediv_fraction(2,3)[OF assms(4,5)]
  note gc = gradient_color_interpolated[OF assms(2,3) t]
  have "image_rows img ! nat y =
      replicate (nat width) (interpolated_color color1 color2 (interpolation_fraction y height))"
    using img(3)[OF assms(4,5)] gc by (simp add: c1 c2 interpolation_fraction_def)
  then show ?thesis using img(1,2) assms(4,5) by (simp add: gradient_row_def c1 c2)
qed

lemma interpolated_color_top:
  assumes "is_rgb color1" and "is_rgb color2" and "0 < height"
  shows "interpolated_color color1 color2 (interpolation_fraction 0 height) = color1"
proof -
  obtain r1 g1 b1 where c1: "color1 = (r1, g1, b1)" by (cases color1)
  obtain r2 g2 b2 where c2: "color2 = (r2, g2, b2)" by (cases color2)
  from assms(1,2) have b: "0 \<le> r1" "r1 \<le> 255" "0 \<le> g1" "g1 \<le> 255" "0 \<le> b1" "b1 \<le> 255"
    "0 \<le> r2" "r2 \<le> 255" "0 \<le> g2" "g2 \<le> 255" "0 \<le> b2" "b2 \<le> 255"
    by (simp_all add: is_rgb_def c1 c2)
  show ?thesis
    by (simp add: interpolated_color_def interpolation_fraction_def c1 c2 round_to_double_zero
        interpolated_channel_top[OF b(1,2) b(7,8)] interpolated_channel_top[OF b(3,4) b(9,10)]
        interpolated_channel_top[OF b(5,6) b(11,12)])
qed

lemma gradient_row_outside:
  assumes "0 \<le> width" and "0 \<le> height" and "is_rgb color1" and "is_rgb color2"
    and "y < 0 \<or> height \<le> y"
  shows "gradient_row width height color1 color2 y = None"
proof -
  obtain r1 g1 b1 where c1: "color1 = (r1, g1, b1)" by (cases color1)
  obtain r2 g2 b2 where c2: "color2 = (r2, g2, b2)" by (cases color2)
  from assms(3,4) have b: "\<bar>r1\<bar> \<le> 255" "\<bar>g1\<bar> \<le> 255" "\<bar>b1\<bar> \<le> 255" "\<bar>r2\<bar> \<le> 255" "\<bar>g2\<bar> \<le> 255" "\<bar>b2\<bar> \<le> 255"
    by (simp_all add: is_rgb_def c1 c2)
  obtain img where img: "generate_gradient width height (r1, g1, b1) (r2, g2, b2) = Inr img"
    "length (image_rows img) = nat height"
    using generate_gradient_rows[OF assms(1,2) b] by metis
  show ?thesis using img assms(2,5) by (auto simp add: gradient_row_def c1 c2)
qed

text \<open>
  C2. For \<open>width \<ge> 1\<close>, \<open>height \<ge> 1\<close> and byte channels, \<^verbatim>\<open>generate_gradient\<close> returns an
  image whose row \<open>y\<close>, for every \<open>y\<close> in \<open>[0, height)\<close>, is \<open>width\<close> pixels of one colour,
  the channel \<open>c\<close> of which is \<open>floor (top c * (1 - t) + bottom c * t)\<close> with \<open>t = y / height\<close>
  in floating point; there is no other row; row 0 is the top colour exactly.
\<close>

theorem gradient_rows_are_interpolated:
  assumes "1 \<le> width" and "1 \<le> height" and "is_rgb color1" and "is_rgb color2"
  shows "(\<forall>y. 0 \<le> y \<and> y < height \<longrightarrow>
            gradient_row width height color1 color2 y =
              Some (replicate (nat width)
                (interpolated_color color1 color2 (interpolation_fraction y height))))
       \<and> (\<forall>y. y < 0 \<or> height \<le> y \<longrightarrow> gradient_row width height color1 color2 y = None)
       \<and> gradient_row width height color1 color2 0 = Some (replicate (nat width) color1)"
proof -
  have w: "0 \<le> width" and h: "0 \<le> height" "0 < height" using assms(1,2) by simp_all
  have a: "\<forall>y. 0 \<le> y \<and> y < height \<longrightarrow>
            gradient_row width height color1 color2 y =
              Some (replicate (nat width)
                (interpolated_color color1 color2 (interpolation_fraction y height)))"
    using gradient_row_interpolated[OF w assms(3,4)] by blast
  have b: "\<forall>y. y < 0 \<or> height \<le> y \<longrightarrow> gradient_row width height color1 color2 y = None"
    using gradient_row_outside[OF w h(1) assms(3,4)] by blast
  have c: "gradient_row width height color1 color2 0 = Some (replicate (nat width) color1)"
    using gradient_row_interpolated[OF w assms(3,4), of 0] h(2)
    by (simp add: interpolated_color_top[OF assms(3,4) h(2)])
  from a b c show ?thesis by blast
qed

theorem gradient_rows_are_interpolated_witness:
  "gradient_row 1200 630 (255, 0, 0) (0, 0, 255) 0 = Some (replicate 1200 (255, 0, 0))
   \<and> gradient_row 1200 630 (255, 0, 0) (0, 0, 255) 629 =
       Some (replicate 1200
         (interpolated_color (255, 0, 0) (0, 0, 255) (interpolation_fraction 629 630)))
   \<and> gradient_row 1200 630 (255, 0, 0) (0, 0, 255) 630 = None"
  using gradient_rows_are_interpolated[of 1200 630 "(255, 0, 0)" "(0, 0, 255)"]
  by (simp add: is_rgb_def)

text \<open>Evaluating a rounding at a given number.\<close>

lemma round_half_even_eval:
  assumes "\<bar>x - of_int m\<bar> < 1 / 2"
  shows "round_half_even x = m"
proof -
  have "of_int \<lfloor>x\<rfloor> \<le> x" "x < of_int \<lfloor>x\<rfloor> + 1" by linarith+
  moreover have "\<lfloor>x\<rfloor> = m \<or> \<lfloor>x\<rfloor> = m - 1"
  proof -
    have "x - of_int m < 1 / 2" "- (1 / 2) < x - of_int m" using assms by (simp_all only: abs_less_iff) linarith+
    then have "of_int (m - 1) \<le> x" "x < of_int (m + 1)" by simp_all
    then have "m - 1 \<le> \<lfloor>x\<rfloor>" "\<lfloor>x\<rfloor> < m + 1" by (simp_all only: le_floor_iff floor_less_iff)
    then show ?thesis by linarith
  qed
  ultimately show ?thesis using assms
    by (auto simp add: round_half_even_def Let_def abs_less_iff)
qed

lemma round_to_double_eval:
  assumes "2 powi e \<le> x" and "x < 2 powi (e + 1)" and "- 1022 \<le> e"
    and "\<bar>x / 2 powi (e - 52) - of_int m\<bar> < 1 / 2"
  shows "round_to_double x = of_int m * 2 powi (e - 52)"
  using round_to_double_normal[OF assms(1-3)] round_half_even_eval[OF assms(4)] by simp

subsection \<open>The bottom edge of a gradient from white to black\<close>

text \<open>
  The last row has \<open>t = (height - 1) / height\<close>. Its channel falls as \<open>t\<close> grows, and it is
  truncated: from \<open>height = 255\<close> on it is \<open>0\<close>.
\<close>

lemma fraction_254_255:
  "round_to_double (254 / 255) = of_int 8971876904722400 * 2 powi (- 53)"
  using round_to_double_eval[of "- 1" "254 / 255" 8971876904722400] by simp

lemma white_to_black_channel:
  "interpolated_channel 255 0 t = \<lfloor>round_to_double (round_to_double (255 * round_to_double (1 - t)))\<rfloor>"
  by (simp add: interpolated_channel_def round_to_double_zero)

lemma white_to_black_antitone:
  assumes "t \<le> u"
  shows "round_to_double (round_to_double (255 * round_to_double (1 - u)))
           \<le> round_to_double (round_to_double (255 * round_to_double (1 - t)))"
proof -
  have "round_to_double (1 - u) \<le> round_to_double (1 - t)"
    using assms by (intro round_to_double_mono) simp
  then have "255 * round_to_double (1 - u) \<le> 255 * round_to_double (1 - t)" by simp
  then show ?thesis by (intro round_to_double_mono)
qed

lemma last_row_black:
  assumes "255 \<le> h"
  shows "interpolated_channel 255 0 (interpolation_fraction (h - 1) h) = 0"
proof -
  define t where "t = interpolation_fraction (h - 1) h"
  define t0 :: rat where "t0 = of_int 8971876904722400 * 2 powi (- 53)"
  have hr: "(0::rat) < of_int h" using assms by simp
  have "(254::rat) / 255 \<le> of_int (h - 1) / of_int h"
    using assms hr by (simp add: field_simps)
  then have "round_to_double (254 / 255) \<le> t"
    unfolding t_def interpolation_fraction_def by (rule round_to_double_mono)
  then have t0: "t0 \<le> t" by (simp add: fraction_254_255 t0_def)
  have "(of_int (h - 1) :: rat) / of_int h \<le> 1" using hr by (simp add: divide_le_eq_1)
  then have "t \<le> round_to_double 1"
    unfolding t_def interpolation_fraction_def by (rule round_to_double_mono)
  then have t1: "t \<le> 1" using round_to_double_of_int[of 1] by simp
  have s0: "1 - t0 = of_int 35322350018592 * 2 powi (- 53)" by (simp add: t0_def)
  have "round_to_double (1 - t0) = of_int 35322350018592 * 2 powi (- 53)"
    unfolding s0 by (rule round_to_double_exact) simp_all
  moreover have "255 * (of_int 35322350018592 * 2 powi (- 53)) = (of_int 9007199254740960 * 2 powi (- 53) :: rat)"
    by simp
  moreover have "round_to_double (of_int 9007199254740960 * 2 powi (- 53)) = of_int 9007199254740960 * 2 powi (- 53)"
    by (rule round_to_double_exact) simp_all
  ultimately have e0: "round_to_double (round_to_double (255 * round_to_double (1 - t0)))
      = of_int 9007199254740960 * 2 powi (- 53)" by (simp only:)
  have "round_to_double (round_to_double (255 * round_to_double (1 - t))) \<le>
        round_to_double (round_to_double (255 * round_to_double (1 - t0)))"
    using t0 by (rule white_to_black_antitone)
  then have up: "round_to_double (round_to_double (255 * round_to_double (1 - t))) < 1"
    unfolding e0 by simp
  have "0 \<le> round_to_double (1 - t)" using t1 by (intro round_to_double_nonneg) simp
  then have "0 \<le> round_to_double (255 * round_to_double (1 - t))" by (intro round_to_double_nonneg) simp
  then have lo: "0 \<le> round_to_double (round_to_double (255 * round_to_double (1 - t)))"
    by (rule round_to_double_nonneg)
  show ?thesis
    unfolding t_def[symmetric] white_to_black_channel using lo up by (simp add: floor_eq_iff)
qed

lemma last_row_not_black:
  assumes "1 \<le> h" and "h \<le> 254"
  shows "1 \<le> interpolated_channel 255 0 (interpolation_fraction (h - 1) h)"
proof -
  define t where "t = interpolation_fraction (h - 1) h"
  define R :: rat where "R = of_int 1044455 * 2 powi (- 20)"
  have hr: "(0::rat) < of_int h" "(of_int h :: rat) \<le> 254" using assms by simp_all
  have "(of_int (h - 1) :: rat) / of_int h \<le> 253 / 254"
    using hr by (simp add: field_simps)
  also have "\<dots> \<le> R" by (simp add: R_def)
  finally have "t \<le> round_to_double R"
    unfolding t_def interpolation_fraction_def by (rule round_to_double_mono)
  moreover have "round_to_double R = R" unfolding R_def by (rule round_to_double_exact) simp_all
  ultimately have tR: "t \<le> R" by simp
  have s0: "1 - R = of_int 4121 * 2 powi (- 20)" by (simp add: R_def)
  have "round_to_double (1 - R) = of_int 4121 * 2 powi (- 20)"
    unfolding s0 by (rule round_to_double_exact) simp_all
  moreover have "255 * (of_int 4121 * 2 powi (- 20)) = (of_int 1050855 * 2 powi (- 20) :: rat)"
    by simp
  moreover have "round_to_double (of_int 1050855 * 2 powi (- 20)) = of_int 1050855 * 2 powi (- 20)"
    by (rule round_to_double_exact) simp_all
  ultimately have e0: "round_to_double (round_to_double (255 * round_to_double (1 - R)))
      = of_int 1050855 * 2 powi (- 20)" by (simp only:)
  have "round_to_double (round_to_double (255 * round_to_double (1 - R))) \<le>
        round_to_double (round_to_double (255 * round_to_double (1 - t)))"
    using tR by (rule white_to_black_antitone)
  then have "1 \<le> round_to_double (round_to_double (255 * round_to_double (1 - t)))"
    unfolding e0 by simp
  then show ?thesis
    unfolding t_def[symmetric] white_to_black_channel by (simp add: le_floor_iff)
qed


lemma white_to_black_last_row:
  assumes "0 \<le> width" and "1 \<le> height"
  shows "gradient_row width height (255, 255, 255) (0, 0, 0) (height - 1) =
           Some (replicate (nat width)
             (interpolated_channel 255 0 (interpolation_fraction (height - 1) height),
              interpolated_channel 255 0 (interpolation_fraction (height - 1) height),
              interpolated_channel 255 0 (interpolation_fraction (height - 1) height)))"
  using gradient_row_interpolated[of width "(255, 255, 255)" "(0, 0, 0)" "height - 1" height] assms
  by (simp add: is_rgb_def interpolated_color_def)

text \<open>
  C5, as amended. For \<open>width \<ge> 1\<close> and \<open>height \<ge> 1\<close> the gradient from white to black has
  row 0 exactly white. Its last row is exactly black when \<open>height \<ge> 255\<close>; when
  \<open>height \<le> 254\<close> it is a grey \<open>(v, v, v)\<close> with \<open>1 \<le> v\<close>, so not black. The gradient
  can reach the bottom colour at the bottom edge.
\<close>

theorem white_to_black_edges:
  assumes "1 \<le> width" and "1 \<le> height"
  shows "gradient_row width height (255, 255, 255) (0, 0, 0) 0 =
           Some (replicate (nat width) (255, 255, 255))
       \<and> (255 \<le> height \<longrightarrow>
            gradient_row width height (255, 255, 255) (0, 0, 0) (height - 1) =
              Some (replicate (nat width) (0, 0, 0)))
       \<and> (height \<le> 254 \<longrightarrow>
            (\<exists>v. 1 \<le> v \<and> v \<le> 255 \<and>
               gradient_row width height (255, 255, 255) (0, 0, 0) (height - 1) =
                 Some (replicate (nat width) (v, v, v))))"
proof -
  have w: "0 \<le> width" and h: "0 < height" using assms by simp_all
  have rgb: "is_rgb (255, 255, 255)" "is_rgb (0, 0, 0)" by (simp_all add: is_rgb_def)
  have a: "gradient_row width height (255, 255, 255) (0, 0, 0) 0 =
           Some (replicate (nat width) (255, 255, 255))"
    using gradient_row_interpolated[OF w rgb, of 0 height] h
    by (simp add: interpolated_color_top[OF rgb h])
  note last = white_to_black_last_row[OF w assms(2)]
  have b: "255 \<le> height \<longrightarrow>
            gradient_row width height (255, 255, 255) (0, 0, 0) (height - 1) =
              Some (replicate (nat width) (0, 0, 0))"
    using last by (simp add: last_row_black)
  have c: "height \<le> 254 \<longrightarrow>
            (\<exists>v. 1 \<le> v \<and> v \<le> 255 \<and>
               gradient_row width height (255, 255, 255) (0, 0, 0) (height - 1) =
                 Some (replicate (nat width) (v, v, v)))"
  proof
    assume le: "height \<le> 254"
    have y: "0 \<le> height - 1" "height - 1 < height" using assms(2) by simp_all
    have "interpolated_channel 255 0 (interpolation_fraction (height - 1) height) \<le> 255"
      unfolding interpolation_fraction_def
      using int_truediv_fraction(2,3)[OF y] by (intro gradient_channel_interpolated(3)) simp_all
    then show "\<exists>v. 1 \<le> v \<and> v \<le> 255 \<and>
               gradient_row width height (255, 255, 255) (0, 0, 0) (height - 1) =
                 Some (replicate (nat width) (v, v, v))"
      using last last_row_not_black[OF assms(2) le] by blast
  qed
  from a b c show ?thesis by blast
qed

theorem white_to_black_edges_witness:
  "gradient_row 1200 630 (255, 255, 255) (0, 0, 0) 0 = Some (replicate 1200 (255, 255, 255))
   \<and> gradient_row 1200 630 (255, 255, 255) (0, 0, 0) 629 = Some (replicate 1200 (0, 0, 0))
   \<and> (\<exists>v. 1 \<le> v \<and> v \<le> 255 \<and>
         gradient_row 320 200 (255, 255, 255) (0, 0, 0) 199 = Some (replicate 320 (v, v, v)))"
  using white_to_black_edges[of 1200 630] white_to_black_edges[of 320 200] by simp

text \<open>
  C5 as stated fails at the default size: the last row of the 1200 by 630 gradient from
  white to black is exactly black.
\<close>

theorem default_height_last_row_is_black:
  "gradient_row 1200 630 (255, 255, 255) (0, 0, 0) 629 = Some (replicate 1200 (0, 0, 0))"
  using white_to_black_last_row[of 1200 630] last_row_black[of 630] by simp

subsection \<open>A request without text\<close>

lemma normalize_nonneg:
  assumes "0 \<le> API_THUMBNAIL_MIN_WIDTH cfg" and "0 \<le> API_THUMBNAIL_MAX_WIDTH cfg"
    and "0 \<le> API_THUMBNAIL_MIN_HEIGHT cfg" and "0 \<le> API_THUMBNAIL_MAX_HEIGHT cfg"
  shows "0 \<le> normalize_width cfg width" and "0 \<le> normalize_height cfg height"
  using assms by (auto simp: normalize_width_def normalize_height_def Let_def)

lemma render_response_without_text:
  "isl (render_response textsize w h c1 c2 None)"
  by (simp add: render_response_def split: sum.splits)

lemma render_response_attribute_error:
  assumes "0 \<le> w" and "0 \<le> h"
    and "\<bar>r1\<bar> \<le> 255" "\<bar>g1\<bar> \<le> 255" "\<bar>b1\<bar> \<le> 255" "\<bar>r2\<bar> \<le> 255" "\<bar>g2\<bar> \<le> 255" "\<bar>b2\<bar> \<le> 255"
  shows "render_response textsize w h (r1, g1, b1) (r2, g2, b2) None = Inl AttributeError"
proof -
  obtain img where "generate_gradient w h (r1, g1, b1) (r2, g2, b2) = Inr img"
    using generate_gradient_rows[OF assms] by metis
  then show ?thesis by (simp add: render_response_def)
qed

text \<open>
  C9. When \<^verbatim>\<open>text\<close> is \<^verbatim>\<open>None\<close> the handler never returns a response: its result is an
  exception. With non-negative bounds configured the gradient is generated and the exception
  is the \<^verbatim>\<open>AttributeError\<close> of \<^verbatim>\<open>text.replace\<close>, whatever the other parameters are.
\<close>

theorem missing_text_raises_attribute_error:
  "isl (fst (get_thumbnail cfg textsize g width height top_color bottom_color None))
   \<and> (0 \<le> API_THUMBNAIL_MIN_WIDTH cfg \<and> 0 \<le> API_THUMBNAIL_MAX_WIDTH cfg
        \<and> 0 \<le> API_THUMBNAIL_MIN_HEIGHT cfg \<and> 0 \<le> API_THUMBNAIL_MAX_HEIGHT cfg
      \<longrightarrow> fst (get_thumbnail cfg textsize g width height top_color bottom_color None)
            = Inl AttributeError)"
proof -
  obtain r1 g1 b1 ga where top: "resolve_color top_color g = (Inr (r1, g1, b1), ga)"
    and tb: "- 15 \<le> r1" "r1 \<le> 255" "- 15 \<le> g1" "g1 \<le> 255" "- 15 \<le> b1" "b1 \<le> 255"
    by (rule resolve_color_total)
  obtain r2 g2 b2 gb where bot: "resolve_color bottom_color ga = (Inr (r2, g2, b2), gb)"
    and bb: "- 15 \<le> r2" "r2 \<le> 255" "- 15 \<le> g2" "g2 \<le> 255" "- 15 \<le> b2" "b2 \<le> 255"
    by (rule resolve_color_total)
  have gt: "fst (get_thumbnail cfg textsize g width height top_color bottom_color None) =
      render_response textsize (normalize_width cfg width) (normalize_height cfg height)
        (r1, g1, b1) (r2, g2, b2) None"
    by (simp add: get_thumbnail_def top bot)
  have a: "isl (fst (get_thumbnail cfg textsize g width height top_color bottom_color None))"
    unfolding gt by (rule render_response_without_text)
  have b: "0 \<le> API_THUMBNAIL_MIN_WIDTH cfg \<and> 0 \<le> API_THUMBNAIL_MAX_WIDTH cfg
        \<and> 0 \<le> API_THUMBNAIL_MIN_HEIGHT cfg \<and> 0 \<le> API_THUMBNAIL_MAX_HEIGHT cfg
      \<longrightarrow> fst (get_thumbnail cfg textsize g width height top_color bottom_color None)
            = Inl AttributeError"
  proof
    assume c: "0 \<le> API_THUMBNAIL_MIN_WIDTH cfg \<and> 0 \<le> API_THUMBNAIL_MAX_WIDTH cfg
        \<and> 0 \<le> API_THUMBNAIL_MIN_HEIGHT cfg \<and> 0 \<le> API_THUMBNAIL_MAX_HEIGHT cfg"
    then have n: "0 \<le> normalize_width cfg width" "0 \<le> normalize_height cfg height"
      by (simp_all add: normalize_nonneg)
    have ab: "\<bar>r1\<bar> \<le> 255" "\<bar>g1\<bar> \<le> 255" "\<bar>b1\<bar> \<le> 255" "\<bar>r2\<bar> \<le> 255" "\<bar>g2\<bar> \<le> 255" "\<bar>b2\<bar> \<le> 255"
      using tb bb by simp_all
    show "fst (get_thumbnail cfg textsize g width height top_color bottom_color None)
            = Inl AttributeError"
      unfolding gt by (rule render_response_attribute_error[OF n ab])
  qed
  from a b show ?thesis by blast
qed

theorem missing_text_raises_attribute_error_witness:
  "fst (get_thumbnail
     \<lparr>API_THUMBNAIL_MIN_WIDTH = 200, API_THUMBNAIL_MAX_WIDTH = 2000,
       API_THUMBNAIL_MIN_HEIGHT = 100, API_THUMBNAIL_MAX_HEIGHT = 1000\<rparr>
     (\<lambda>text font_size. (0, 0)) id 1200 630 (Some (py_str ''ff0000'')) None None) = Inl AttributeError"
  using missing_text_raises_attribute_error
     [of "\<lparr>API_THUMBNAIL_MIN_WIDTH = 200, API_THUMBNAIL_MAX_WIDTH = 2000,
           API_THUMBNAIL_MIN_HEIGHT = 100, API_THUMBNAIL_MAX_HEIGHT = 1000\<rparr>"
         "\<lambda>text font_size. (0, 0)" id 1200 630 "Some (py_str ''ff0000'')" None]
  by simp

subsection \<open>The font size\<close>

lemma length_py_str [simp]: "length (py_str s) = length s"
  by (simp add: py_str_def)

text \<open>
  The literal \<^verbatim>\<open>0.05\<close> is a double slightly above one twentieth, and a rounding in the
  normal range has a relative error of at most \<open>2 powi (- 53)\<close>.
\<close>

lemma literal_0_05:
  "round_to_double (5 / 100) = of_int 7205759403792794 * 2 powi (- 57)"
  using round_to_double_eval[of "- 5" "5 / 100" 7205759403792794] by simp

lemma round_to_double_relative:
  assumes "x = 0 \<or> 2 powi (- 1022) \<le> x"
  shows "x * (1 - 2 powi (- 53)) \<le> round_to_double x"
    and "round_to_double x \<le> x * (1 + 2 powi (- 53))"
proof -
  have "\<bar>round_to_double x - x\<bar> \<le> x * 2 powi (- 53)"
    using assms
  proof
    assume "x = 0" then show ?thesis by (simp add: round_to_double_zero)
  next
    assume "2 powi (- 1022) \<le> x" then show ?thesis by (rule round_to_double_error)
  qed
  then have "x - x * 2 powi (- 53) \<le> round_to_double x"
    and "round_to_double x \<le> x + x * 2 powi (- 53)"
    by (simp_all only: abs_le_iff) linarith+
  then show "x * (1 - 2 powi (- 53)) \<le> round_to_double x"
    and "round_to_double x \<le> x * (1 + 2 powi (- 53))"
    by (simp_all only: right_diff_distrib distrib_left mult_1_right)
qed

lemma normal_range: "1 / 20 \<le> x \<Longrightarrow> 2 powi (- 1022) \<le> (x::rat)"
proof -
  assume "1 / 20 \<le> x"
  moreover have "(2::rat) powi (- 1022) \<le> 2 powi (- 5)" by (rule powi_two_mono) simp
  moreover have "(2::rat) powi (- 5) \<le> 1 / 20" by simp
  ultimately show ?thesis by linarith
qed

text \<open>
  The thirteen values of \<open>k\<close> for which \<open>20 + k\<close> divides 2000 are those where the exact
  quotient is an integer; there the product \<^verbatim>\<open>0.05 * k\<close> rounds to \<open>k / 20\<close> exactly.
\<close>

lemma exact_products:
  "round_to_double (of_int 7205759403792794 * 2 powi (- 57) * 5) = 5 / 20"
  "round_to_double (of_int 7205759403792794 * 2 powi (- 57) * 20) = 20 / 20"
  "round_to_double (of_int 7205759403792794 * 2 powi (- 57) * 30) = 30 / 20"
  "round_to_double (of_int 7205759403792794 * 2 powi (- 57) * 60) = 60 / 20"
  "round_to_double (of_int 7205759403792794 * 2 powi (- 57) * 80) = 80 / 20"
  "round_to_double (of_int 7205759403792794 * 2 powi (- 57) * 105) = 105 / 20"
  "round_to_double (of_int 7205759403792794 * 2 powi (- 57) * 180) = 180 / 20"
  "round_to_double (of_int 7205759403792794 * 2 powi (- 57) * 230) = 230 / 20"
  "round_to_double (of_int 7205759403792794 * 2 powi (- 57) * 380) = 380 / 20"
  "round_to_double (of_int 7205759403792794 * 2 powi (- 57) * 480) = 480 / 20"
  "round_to_double (of_int 7205759403792794 * 2 powi (- 57) * 980) = 980 / 20"
  "round_to_double (of_int 7205759403792794 * 2 powi (- 57) * 1980) = 1980 / 20"
proof -
  show "round_to_double (of_int 7205759403792794 * 2 powi (- 57) * 5) = 5 / 20"
    using round_to_double_eval[of "- 2" "of_int 7205759403792794 * 2 powi (- 57) * 5" 4503599627370496] by simp
  show "round_to_double (of_int 7205759403792794 * 2 powi (- 57) * 20) = 20 / 20"
    using round_to_double_eval[of 0 "of_int 7205759403792794 * 2 powi (- 57) * 20" 4503599627370496] by simp
  show "round_to_double (of_int 7205759403792794 * 2 powi (- 57) * 30) = 30 / 20"
    using round_to_double_eval[of 0 "of_int 7205759403792794 * 2 powi (- 57) * 30" 6755399441055744] by simp
  show "round_to_double (of_int 7205759403792794 * 2 powi (- 57) * 60) = 60 / 20"
    using round_to_double_eval[of 1 "of_int 7205759403792794 * 2 powi (- 57) * 60" 6755399441055744] by simp
  show "round_to_double (of_int 7205759403792794 * 2 powi (- 57) * 80) = 80 / 20"
    using round_to_double_eval[of 2 "of_int 7205759403792794 * 2 powi (- 57) * 80" 4503599627370496] by simp
  show "round_to_double (of_int 7205759403792794 * 2 powi (- 57) * 105) = 105 / 20"
    using round_to_double_eval[of 2 "of_int 7205759403792794 * 2 powi (- 57) * 105" 5910974510923776] by simp
  show "round_to_double (of_int 7205759403792794 * 2 powi (- 57) * 180) = 180 / 20"
    using round_to_double_eval[of 3 "of_int 7205759403792794 * 2 powi (- 57) * 180" 5066549580791808] by simp
  show "round_to_double (of_int 7205759403792794 * 2 powi (- 57) * 230) = 230 / 20"
    using round_to_double_eval[of 3 "of_int 7205759403792794 * 2 powi (- 57) * 230" 6473924464345088] by simp
  show "round_to_double (of_int 7205759403792794 * 2 powi (- 57) * 380) = 380 / 20"
    using round_to_double_eval[of 4 "of_int 7205759403792794 * 2 powi (- 57) * 380" 5348024557502464] by simp
  show "round_to_double (of_int 7205759403792794 * 2 powi (- 57) * 480) = 480 / 20"
    using round_to_double_eval[of 4 "of_int 7205759403792794 * 2 powi (- 57) * 480" 6755399441055744] by simp
  show "round_to_double (of_int 7205759403792794 * 2 powi (- 57) * 980) = 980 / 20"
    using round_to_double_eval[of 5 "of_int 7205759403792794 * 2 powi (- 57) * 980" 6896136929411072] by simp
  show "round_to_double (of_int 7205759403792794 * 2 powi (- 57) * 1980) = 1980 / 20"
    using round_to_double_eval[of 6 "of_int 7205759403792794 * 2 powi (- 57) * 1980" 6966505673588736] by simp
qed

lemma divisors_of_2000:
  fixes n :: int
  assumes "1 \<le> n" and "n \<le> 100" and "n dvd 2000"
  shows "n \<in> {1, 2, 4, 5, 8, 10, 16, 20, 25, 40, 50, 80, 100}"
proof -
  have "\<forall>n\<in>set [1..100::int]. n dvd 2000 \<longrightarrow> n \<in> {1, 2, 4, 5, 8, 10, 16, 20, 25, 40, 50, 80, 100}"
    by code_simp
  then show ?thesis using assms by simp
qed

text \<open>
  For \<open>k\<close> above 1980 the quotient is below 1; where \<open>20 + k\<close> divides 2000 it is the
  exact integer; elsewhere three roundings move it by less than its distance to the next
  integer.
\<close>

lemma font_quotient_large:
  assumes "1981 \<le> k"
  shows "0 \<le> font_quotient k" and "font_quotient k < 1"
proof -
  define c :: rat where "c = round_to_double (5 / 100)"
  define kf where "kf = round_to_double (of_int k)"
  define p where "p = round_to_double (c * kf)"
  define s where "s = round_to_double (1 + p)"
  have c: "1 / 20 \<le> c" unfolding c_def literal_0_05 by simp
  have "round_to_double (of_int 1981) \<le> kf"
    unfolding kf_def using assms by (intro round_to_double_mono) simp
  then have kf: "1981 \<le> kf" using round_to_double_of_int[of 1981] by simp
  have "1 / 20 * 1981 \<le> c * kf" using c kf by (intro mult_mono) simp_all
  then have "of_int 3169 * 2 powi (- 5) \<le> c * kf" by simp
  then have "round_to_double (of_int 3169 * 2 powi (- 5)) \<le> p"
    unfolding p_def by (rule round_to_double_mono)
  moreover have "round_to_double (of_int 3169 * 2 powi (- 5)) = of_int 3169 * 2 powi (- 5)"
    by (rule round_to_double_exact) simp_all
  ultimately have p: "of_int 3169 * 2 powi (- 5) \<le> p" by simp
  then have "of_int 3201 * 2 powi (- 5) \<le> 1 + p" by simp
  then have "round_to_double (of_int 3201 * 2 powi (- 5)) \<le> s"
    unfolding s_def by (rule round_to_double_mono)
  moreover have "round_to_double (of_int 3201 * 2 powi (- 5)) = of_int 3201 * 2 powi (- 5)"
    by (rule round_to_double_exact) simp_all
  ultimately have "of_int 3201 * 2 powi (- 5) \<le> s" by simp
  then have s: "3201 / 32 \<le> s" by simp
  then have s0: "0 < s" by linarith
  have "100 / s \<le> 100 / (3201 / 32)" using s by (intro divide_left_mono) simp_all
  also have "\<dots> \<le> of_int 4095 * 2 powi (- 12)" by simp
  finally have "round_to_double (100 / s) \<le> round_to_double (of_int 4095 * 2 powi (- 12))"
    by (rule round_to_double_mono)
  moreover have "round_to_double (of_int 4095 * 2 powi (- 12)) = of_int 4095 * 2 powi (- 12)"
    by (rule round_to_double_exact) simp_all
  ultimately have "round_to_double (100 / s) \<le> of_int 4095 * 2 powi (- 12)" by simp
  then have "round_to_double (100 / s) < 1" by simp
  then show "font_quotient k < 1" by (simp add: font_quotient_def s_def p_def kf_def c_def)
  have "0 \<le> round_to_double (100 / s)" using s0 by (intro round_to_double_nonneg) simp
  then show "0 \<le> font_quotient k" by (simp add: font_quotient_def s_def p_def kf_def c_def)
qed

lemma font_quotient_exact:
  assumes "round_to_double (round_to_double (5 / 100) * of_int k) = of_int k / 20"
    and "0 \<le> k" and "k \<le> 1980" and "n * (20 + k) = 2000" and "k = 5 * j"
  shows "font_quotient k = of_int n"
proof -
  have kf: "round_to_double (of_int k) = of_int k"
    using assms(2,3) by (intro round_to_double_of_int) simp
  have n: "0 < n" "n \<le> 100"
  proof -
    show "0 < n"
    proof (rule ccontr)
      assume "\<not> 0 < n"
      then have "n * (20 + k) \<le> 0" using assms(2) by (intro mult_nonpos_nonneg) simp_all
      with assms(4) show False by simp
    qed
    then have "n * 20 \<le> n * (20 + k)" using assms(2) by (intro mult_left_mono) simp_all
    with assms(4) show "n \<le> 100" by simp
  qed
  have e: "1 + (of_int k :: rat) / 20 = of_int (4 + j) * 2 powi (- 2)"
    by (simp add: assms(5))
  have "round_to_double (of_int (4 + j) * 2 powi (- 2)) = of_int (4 + j) * 2 powi (- 2)"
    using assms(2,3,5) by (intro round_to_double_exact) simp_all
  then have s: "round_to_double (1 + of_int k / 20) = 1 + of_int k / 20" by (simp only: e)
  have K: "(of_int n :: rat) * (20 + of_int k) = 2000"
    using assms(4) by (metis of_int_add of_int_mult of_int_numeral)
  have pos: "(0::rat) < 20 + of_int k" using assms(2) by simp
  have "(100::rat) / (1 + of_int k / 20) = 2000 / (20 + of_int k)" using pos by (simp add: field_simps)
  also have "\<dots> = of_int n" using K pos by (simp add: field_simps)
  finally have q: "(100::rat) / (1 + of_int k / 20) = of_int n" .
  have "round_to_double (of_int n) = of_int n" using n by (intro round_to_double_of_int) simp
  then show ?thesis unfolding font_quotient_def kf assms(1) s q .
qed

lemma font_quotient_bounds:
  assumes "0 \<le> k" and "k \<le> 1980"
  shows "font_quotient k < of_int (2000 div (20 + k)) + 1"
    and "2000 mod (20 + k) \<noteq> 0 \<Longrightarrow> of_int (2000 div (20 + k)) \<le> font_quotient k"
proof -
  define n where "n = 2000 div (20 + k)"
  define kq :: rat where "kq = of_int k"
  define Kq :: rat where "Kq = 20 + kq"
  define e :: rat where "e = 2 powi (- 53)"
  define a where "a = 1 + e"
  define b where "b = 1 - e"
  define u :: rat where "u = 100001 / 100000"
  define l :: rat where "l = 99999 / 100000"
  define c :: rat where "c = round_to_double (5 / 100)"
  define p where "p = round_to_double (c * kq)"
  define s where "s = round_to_double (1 + p)"
  define v where "v = round_to_double (100 / s)"
  have kf: "round_to_double (of_int k) = kq"
    unfolding kq_def using assms by (intro round_to_double_of_int) simp
  have v: "font_quotient k = v"
    by (simp only: font_quotient_def v_def s_def p_def c_def kf)
  have kq: "0 \<le> kq" "kq \<le> 1980" using assms by (simp_all add: kq_def)
  have Kq: "20 \<le> Kq" "Kq \<le> 2000" using kq by (simp_all add: Kq_def)
  have ab: "1 \<le> a" "a \<le> 1000001 / 1000000" "999999 / 1000000 \<le> b" "b \<le> 1" "0 \<le> b"
    by (simp_all add: a_def b_def e_def)
  have aa: "1 \<le> a * a" using ab(1) by (metis mult_mono mult_1 zero_le_one order_trans)
  have "a * a \<le> (1000001 / 1000000) * (1000001 / 1000000)"
    using ab(1,2) by (intro mult_mono) simp_all
  then have "a * a * a \<le> (1000001 / 1000000) * (1000001 / 1000000) * (1000001 / 1000000)"
    using ab(1,2) by (intro mult_mono) simp_all
  then have aaa: "a * a * a \<le> u" by (simp add: u_def)
  have "(999999 / 1000000) * (999999 / 1000000) \<le> b * b"
    using ab(3,5) by (intro mult_mono) simp_all
  then have bb: "l \<le> b * b" by (simp add: l_def)
  have au: "a \<le> u" using ab(2) by (simp add: u_def)
  have c: "1 / 20 \<le> c" "c \<le> 1 / 20 * a"
    unfolding c_def literal_0_05 a_def e_def by simp_all

  \<comment> \<open>the product\<close>
  have x1: "kq / 20 \<le> c * kq" "c * kq \<le> kq / 20 * a"
  proof -
    have "1 / 20 * kq \<le> c * kq" using c(1) kq(1) by (rule mult_right_mono)
    then show "kq / 20 \<le> c * kq" by simp
    have "c * kq \<le> 1 / 20 * a * kq" using c(2) kq(1) by (rule mult_right_mono)
    then show "c * kq \<le> kq / 20 * a" by (simp add: mult.commute)
  qed
  have x1n: "c * kq = 0 \<or> 2 powi (- 1022) \<le> c * kq"
  proof (cases "k = 0")
    case True then show ?thesis by (simp add: kq_def)
  next
    case False
    then have "1 \<le> kq" using assms(1) by (simp add: kq_def)
    then have "1 / 20 \<le> kq / 20" by simp
    then have "1 / 20 \<le> c * kq" using x1(1) by linarith
    then show ?thesis using normal_range by blast
  qed
  have p: "c * kq * b \<le> p" "p \<le> c * kq * a"
    using round_to_double_relative[OF x1n] by (simp_all add: p_def a_def b_def e_def)
  have p_lo: "kq / 20 * b \<le> p"
  proof -
    have "kq / 20 * b \<le> c * kq * b" using x1(1) ab(5) by (rule mult_right_mono)
    then show ?thesis using p(1) by linarith
  qed
  have p_hi: "p \<le> kq / 20 * (a * a)"
  proof -
    have "c * kq * a \<le> kq / 20 * a * a" using x1(2) ab(1) by (intro mult_right_mono) simp_all
    then show ?thesis using p(2) by (simp add: mult.assoc)
  qed
  have p0: "0 \<le> p"
  proof -
    have "0 \<le> kq / 20 * b" using kq(1) ab(5) by (intro mult_nonneg_nonneg) simp_all
    then show ?thesis using p_lo by linarith
  qed

  \<comment> \<open>the sum\<close>
  have x2: "Kq / 20 * b \<le> 1 + p" "1 + p \<le> Kq / 20 * (a * a)"
  proof -
    have "Kq / 20 * b = b + kq / 20 * b" by (simp add: Kq_def algebra_simps)
    also have "\<dots> \<le> 1 + p" using ab(4) p_lo by linarith
    finally show "Kq / 20 * b \<le> 1 + p" .
    have "1 + p \<le> a * a + kq / 20 * (a * a)" using aa p_hi by linarith
    also have "\<dots> = Kq / 20 * (a * a)" by (simp add: Kq_def algebra_simps)
    finally show "1 + p \<le> Kq / 20 * (a * a)" .
  qed
  have x2n: "1 + p = 0 \<or> 2 powi (- 1022) \<le> 1 + p"
  proof -
    have "1 / 20 \<le> 1 + p" using p0 by simp
    then show ?thesis using normal_range by blast
  qed
  have s: "(1 + p) * b \<le> s" "s \<le> (1 + p) * a"
    using round_to_double_relative[OF x2n] by (simp_all add: s_def a_def b_def e_def)
  have s_lo: "Kq / 20 * l \<le> s"
  proof -
    have "Kq / 20 * b * b \<le> (1 + p) * b" using x2(1) ab(5) by (rule mult_right_mono)
    moreover have "Kq / 20 * l \<le> Kq / 20 * (b * b)" using bb Kq(1) by (intro mult_left_mono) simp_all
    ultimately show ?thesis using s(1) by (simp add: mult.assoc)
  qed
  have s_hi: "s \<le> Kq / 20 * u"
  proof -
    have "(1 + p) * a \<le> Kq / 20 * (a * a) * a" using x2(2) ab(1) by (intro mult_right_mono) simp_all
    moreover have "Kq / 20 * (a * a * a) \<le> Kq / 20 * u" using aaa Kq(1) by (intro mult_left_mono) simp_all
    ultimately show ?thesis using s(2) by (simp add: mult.assoc)
  qed
  have s0: "0 < s"
  proof -
    have "0 < Kq / 20 * l" using Kq(1) by (simp add: l_def)
    then show ?thesis using s_lo by linarith
  qed

  \<comment> \<open>the quotient\<close>
  have x3n: "100 / s = 0 \<or> 2 powi (- 1022) \<le> 100 / s"
  proof -
    have "Kq / 20 * u \<le> 2000 / 20 * u" using Kq(2)
      by (intro mult_right_mono divide_right_mono) (simp_all add: u_def)
    then have "s \<le> 2000 / 20 * u" using s_hi by linarith
    then have "s \<le> 2000" by (simp add: u_def)
    then have "100 / 2000 \<le> 100 / s" using s0 by (intro divide_left_mono) simp_all
    then have "1 / 20 \<le> 100 / s" by simp
    then show ?thesis using normal_range by blast
  qed
  have vb: "v \<le> 100 / s * a"
    using round_to_double_relative(2)[OF x3n] by (simp add: v_def a_def e_def)
  have nK: "n * (20 + k) \<le> 2000" "2001 \<le> (n + 1) * (20 + k)"
  proof -
    have K: "0 < 20 + k" using assms(1) by simp
    have d: "2000 = (20 + k) * n + 2000 mod (20 + k)" by (simp add: n_def)
    have m: "0 \<le> 2000 mod (20 + k)" "2000 mod (20 + k) < 20 + k"
      using K by (simp_all)
    show "n * (20 + k) \<le> 2000" using d m(1) by (simp add: mult.commute)
    have "2000 < (20 + k) * n + (20 + k)" using d m(2) by linarith
    then show "2001 \<le> (n + 1) * (20 + k)" by (simp add: algebra_simps)
  qed
  have n0: "0 \<le> n" using assms(1) by (simp add: n_def pos_imp_zdiv_nonneg_iff)
  have nKq: "of_int n * Kq \<le> 2000" "2001 \<le> (of_int n + 1) * Kq"
  proof -
    have "(of_int (n * (20 + k)) :: rat) \<le> of_int 2000" using nK(1) by (simp only: of_int_le_iff)
    then show "of_int n * Kq \<le> 2000" by (simp add: Kq_def kq_def)
    have "(of_int 2001 :: rat) \<le> of_int ((n + 1) * (20 + k))" using nK(2) by (simp only: of_int_le_iff)
    then show "2001 \<le> (of_int n + 1) * Kq" by (simp add: Kq_def kq_def)
  qed
  have upper: "v < of_int n + 1"
  proof -
    have "100 * u < 2001 / 20 * l" by (simp add: u_def l_def)
    also have "\<dots> \<le> (of_int n + 1) * Kq / 20 * l"
      using nKq(2) by (intro mult_right_mono divide_right_mono) (simp_all add: l_def)
    also have "\<dots> = (of_int n + 1) * (Kq / 20 * l)" by simp
    also have "\<dots> \<le> (of_int n + 1) * s" using s_lo n0 by (intro mult_left_mono) simp_all
    finally have "100 * u < (of_int n + 1) * s" .
    then have "100 / s * u < of_int n + 1" using s0 by (simp add: field_simps)
    moreover have "100 / s * a \<le> 100 / s * u" using au s0 by (intro mult_left_mono) simp_all
    ultimately show ?thesis using vb by linarith
  qed
  show "font_quotient k < of_int (2000 div (20 + k)) + 1"
    using upper by (simp add: v n_def)
  show "of_int (2000 div (20 + k)) \<le> font_quotient k" if ne: "2000 mod (20 + k) \<noteq> 0"
  proof -
    have "n * (20 + k) \<noteq> 2000"
    proof
      assume "n * (20 + k) = 2000"
      then have "(20 + k) dvd 2000" by (metis dvd_triv_right)
      then show False using ne by (simp add: dvd_eq_mod_eq_0)
    qed
    then have "n * (20 + k) \<le> 1999" using nK(1) by linarith
    then have "(of_int (n * (20 + k)) :: rat) \<le> of_int 1999" by (simp only: of_int_le_iff)
    then have le: "of_int n * Kq \<le> 1999" by (simp add: Kq_def kq_def)
    have "of_int n * s \<le> of_int n * (Kq / 20 * u)" using s_hi n0 by (intro mult_left_mono) simp_all
    also have "\<dots> = of_int n * Kq / 20 * u" by simp
    also have "\<dots> \<le> 1999 / 20 * u" using le by (intro mult_right_mono divide_right_mono) (simp_all add: u_def)
    also have "\<dots> \<le> 100" by (simp add: u_def)
    finally have "of_int n \<le> 100 / s" using s0 by (simp add: field_simps)
    then have "round_to_double (of_int n) \<le> v" unfolding v_def by (rule round_to_double_mono)
    moreover have "n \<le> 100"
    proof -
      have "n * 20 \<le> n * (20 + k)" using n0 assms(1) by (intro mult_left_mono) simp_all
      then show ?thesis using nK(1) by linarith
    qed
    then have "round_to_double (of_int n) = of_int n" using n0 by (intro round_to_double_of_int) simp
    ultimately show ?thesis by (simp add: v n_def)
  qed
qed

lemma product_exact:
  assumes "k \<in> {0, 5, 20, 30, 60, 80, 105, 180, 230, 380, 480, 980, 1980}"
  shows "round_to_double (round_to_double (5 / 100) * of_int k) = of_int k / 20"
  using assms exact_products unfolding literal_0_05 by (auto simp: round_to_double_zero)

lemma font_quotient_divisor:
  assumes "0 \<le> k" and "k \<le> 1980" and "2000 mod (20 + k) = 0"
  shows "font_quotient k = of_int (2000 div (20 + k))"
proof -
  define n where "n = 2000 div (20 + k)"
  have "2000 = (20 + k) * n + 2000 mod (20 + k)" by (simp add: n_def)
  then have nk: "n * (20 + k) = 2000" using assms(3) by (simp add: mult.commute)
  have "0 < n"
  proof (rule ccontr)
    assume "\<not> 0 < n"
    then have "n * (20 + k) \<le> 0" using assms(1) by (intro mult_nonpos_nonneg) simp_all
    with nk show False by simp
  qed
  moreover from this have "n * 20 \<le> n * (20 + k)" using assms(1) by (intro mult_left_mono) simp_all
  then have "n \<le> 100" using nk by simp
  moreover have "n dvd 2000" using nk by (metis dvd_triv_left)
  ultimately have "n \<in> {1, 2, 4, 5, 8, 10, 16, 20, 25, 40, 50, 80, 100}"
    by (intro divisors_of_2000) simp_all
  then have k: "k \<in> {0, 5, 20, 30, 60, 80, 105, 180, 230, 380, 480, 980, 1980}"
    using nk by auto
  then have "k = 5 * (k div 5)" by auto
  with product_exact[OF k] assms(1,2) nk have "font_quotient k = of_int n"
    by (rule font_quotient_exact)
  then show ?thesis by (simp add: n_def)
qed

lemma font_quotient_floor:
  assumes "0 \<le> k"
  shows "0 \<le> font_quotient k" and "\<lfloor>font_quotient k\<rfloor> = 2000 div (20 + k)"
proof -
  have n0: "0 \<le> 2000 div (20 + k)" using assms by (simp add: pos_imp_zdiv_nonneg_iff)
  consider "1981 \<le> k" | "k \<le> 1980" "2000 mod (20 + k) = 0" | "k \<le> 1980" "2000 mod (20 + k) \<noteq> 0"
    by linarith
  then have "0 \<le> font_quotient k \<and> \<lfloor>font_quotient k\<rfloor> = 2000 div (20 + k)"
  proof cases
    case 1
    then have "2000 div (20 + k) = 0" by (simp add: div_pos_pos_trivial)
    moreover have "\<lfloor>font_quotient k\<rfloor> = 0"
      using font_quotient_large[OF 1] by (simp add: floor_eq_iff)
    ultimately show ?thesis using font_quotient_large(1)[OF 1] by simp
  next
    case 2
    show ?thesis using n0 by (simp add: font_quotient_divisor[OF assms 2])
  next
    case 3
    have lo: "of_int (2000 div (20 + k)) \<le> font_quotient k"
      using assms 3 by (intro font_quotient_bounds(2)) simp_all
    have hi: "font_quotient k < of_int (2000 div (20 + k)) + 1"
      using assms 3(1) by (rule font_quotient_bounds(1))
    have "(0::rat) \<le> of_int (2000 div (20 + k))" using n0 by (simp only: of_int_0_le_iff)
    then have "0 \<le> font_quotient k" using lo by linarith
    moreover have "\<lfloor>font_quotient k\<rfloor> = 2000 div (20 + k)" using lo hi by (simp only: floor_eq_iff)
    ultimately show ?thesis by simp
  qed
  then show "0 \<le> font_quotient k" and "\<lfloor>font_quotient k\<rfloor> = 2000 div (20 + k)" by simp_all
qed

text \<open>
  No operation of \<^verbatim>\<open>get_font_size\<close> overflows or divides by zero for a text shorter than
  \<open>2 ^ 63\<close> characters, the largest length of a string.
\<close>

lemma font_size_chain:
  assumes "length text < 2 ^ 63"
  shows "(case float_mul_int (round_to_double (5 / 100)) \<bar>20 - int (length text)\<bar> of
            Inl e \<Rightarrow> Inl e
          | Inr p \<Rightarrow>
              (case int_add_float 1 p of
                 Inl e \<Rightarrow> Inl e
               | Inr s \<Rightarrow>
                   (case int_div_float 100 s of Inl e \<Rightarrow> Inl e | Inr q \<Rightarrow> Inr (f q)))) =
         (Inr (f (font_quotient \<bar>20 - int (length text)\<bar>)) :: py_error + 'a)"
proof -
  define k where "k = \<bar>20 - int (length text)\<bar>"
  define B :: rat where "B = 2 powi 63"
  define c :: rat where "c = round_to_double (5 / 100)"
  define kf where "kf = round_to_double (of_int k)"
  define p where "p = round_to_double (c * kf)"
  define s where "s = round_to_double (1 + p)"
  have "int (length text) < int (2 ^ 63)" using assms by (simp only: of_nat_less_iff)
  then have "int (length text) < 2 ^ 63" by simp
  then have k: "0 \<le> k" "k \<le> 2 ^ 63" by (simp_all add: k_def)
  have "(of_int k :: rat) \<le> of_int (2 ^ 63)" using k(2) by (simp only: of_int_le_iff)
  then have kB: "\<bar>of_int k :: rat\<bar> \<le> B" using k(1) by (simp add: B_def)
  have B: "round_to_double B = B" "B < 2 ^ 1024" "0 \<le> B"
  proof -
    show "round_to_double B = B" unfolding B_def by (rule round_to_double_powi) simp
    show "B < 2 ^ 1024" "0 \<le> B" by (simp_all add: B_def)
  qed
  have B2: "round_to_double (2 * B) = 2 * B" "2 * B < 2 ^ 1024" "1 \<le> B"
  proof -
    have e: "2 * B = 2 powi 64" by (simp add: B_def)
    have "round_to_double (2 powi 64) = 2 powi 64" by (rule round_to_double_powi) simp
    then show "round_to_double (2 * B) = 2 * B" by (simp only: e)
    show "2 * B < 2 ^ 1024" "1 \<le> B" by (simp_all add: B_def)
  qed
  have f1: "float_of_int k = Inr kf"
    unfolding float_of_int_def kf_def using kB B(1,2) by (rule to_double_ok)
  have kf: "0 \<le> kf" "kf \<le> B"
  proof -
    show "0 \<le> kf" unfolding kf_def using k(1) by (intro round_to_double_nonneg) simp
    have "\<bar>kf\<bar> \<le> B" unfolding kf_def using kB B(1) by (rule round_to_double_abs_le)
    then show "kf \<le> B" by linarith
  qed
  have c: "0 \<le> c" "c \<le> 1" unfolding c_def literal_0_05 by simp_all
  have ck: "0 \<le> c * kf" "c * kf \<le> B"
  proof -
    show "0 \<le> c * kf" using c(1) kf(1) by (rule mult_nonneg_nonneg)
    have "c * kf \<le> 1 * B" using c kf by (intro mult_mono) simp_all
    then show "c * kf \<le> B" by simp
  qed
  then have ckB: "\<bar>c * kf\<bar> \<le> B" by linarith
  have f2: "float_mul c kf = Inr p"
    unfolding float_mul_def p_def using ckB B(1,2) by (rule to_double_ok)
  have "\<bar>p\<bar> \<le> B"
    unfolding p_def using ckB B(1) by (rule round_to_double_abs_le)
  have p: "0 \<le> p" "p \<le> B"
  proof -
    show "0 \<le> p" unfolding p_def using ck(1) by (rule round_to_double_nonneg)
    show "p \<le> B" using \<open>\<bar>p\<bar> \<le> B\<close> by linarith
  qed
  have one: "float_of_int 1 = Inr 1" using float_of_int_small[of 1] by simp
  have "\<bar>1 + p\<bar> \<le> 2 * B" using p B2(3) by linarith
  then have f3: "float_add 1 p = Inr s"
    unfolding float_add_def s_def using B2(1,2) by (rule to_double_ok)
  have "round_to_double (of_int 1) \<le> s" unfolding s_def using p(1) by (intro round_to_double_mono) simp
  then have s: "1 \<le> s" using round_to_double_of_int[of 1] by simp
  have hundred: "float_of_int 100 = Inr 100" using float_of_int_small[of 100] by simp
  have "100 / s \<le> 100 / 1" using s by (intro divide_left_mono) simp_all
  moreover have "0 \<le> 100 / s" using s by simp
  ultimately have "\<bar>100 / s\<bar> \<le> of_int 100" by simp
  then have f4: "to_double (100 / s) = Inr (round_to_double (100 / s))"
    by (rule to_double_small(1)) simp
  have s0: "s \<noteq> 0" using s by linarith
  have q: "font_quotient k = round_to_double (100 / s)"
    by (simp only: font_quotient_def s_def p_def kf_def c_def)
  have m: "float_mul_int c k = Inr p" by (simp add: float_mul_int_def f1 f2)
  have a: "int_add_float 1 p = Inr s" by (simp add: int_add_float_def one f3)
  have d: "int_div_float 100 s = Inr (font_quotient k)"
    by (simp add: int_div_float_def hundred float_truediv_def s0 f4 q)
  show ?thesis
    unfolding k_def[symmetric] c_def[symmetric] by (simp only: m a d sum.case)
qed

lemma get_font_size_value:
  assumes "length text < 2 ^ 63"
  shows "get_font_size text = Inr (2000 div (20 + \<bar>20 - int (length text)\<bar>))"
proof -
  have "0 \<le> \<bar>20 - int (length text)\<bar>" by simp
  then show ?thesis
    unfolding get_font_size_def Let_def font_size_chain[OF assms] int_of_float_def
    by (simp only: font_quotient_floor if_True)
qed

lemma rounded_font_size_value:
  assumes "length text < 2 ^ 63"
  shows "rounded_font_size text = Inr (round_half_even (font_quotient \<bar>20 - int (length text)\<bar>))"
  unfolding rounded_font_size_def Let_def font_size_chain[OF assms] ..

lemma truncated_quotient:
  assumes "0 \<le> k"
  shows "\<lfloor>(100::rat) / (1 + 5 / 100 * of_int k)\<rfloor> = 2000 div (20 + k)"
proof -
  have pos: "(0::rat) < 20 + of_int k" using assms by simp
  have "(100::rat) / (1 + 5 / 100 * of_int k) = of_int 2000 / of_int (20 + k)"
    using pos by (simp add: field_simps)
  then show ?thesis by (simp only: floor_divide_of_int_eq)
qed

lemma font_size_steps:
  assumes "0 \<le> ka" and "ka < kb" and "kb \<le> 29"
  shows "2000 div (20 + kb) < (2000::int) div (20 + ka)"
proof -
  have "\<forall>b\<in>set [0..29::int]. \<forall>a\<in>set [0..b - 1]. 2000 div (20 + b) < 2000 div (20 + a)"
    by code_simp
  then show ?thesis using assms by simp
qed

lemma font_quotient_two: "round_half_even (font_quotient 2) = 91"
proof -
  define c :: rat where "c = round_to_double (5 / 100)"
  define p where "p = round_to_double (c * 2)"
  define s where "s = round_to_double (1 + p)"
  define q where "q = round_to_double (100 / s)"
  have two: "round_to_double (of_int 2) = 2" using round_to_double_of_int[of 2] by simp
  have fq: "font_quotient 2 = q"
    unfolding font_quotient_def two q_def s_def p_def c_def by simp
  have c: "of_int 3 * 2 powi (- 5) \<le> c * 2" "c * 2 \<le> of_int 13 * 2 powi (- 7)"
    unfolding c_def literal_0_05 by simp_all
  have "round_to_double (of_int 3 * 2 powi (- 5)) \<le> p" "p \<le> round_to_double (of_int 13 * 2 powi (- 7))"
    unfolding p_def by (rule round_to_double_mono[OF c(1)] round_to_double_mono[OF c(2)])+
  moreover have "round_to_double (of_int 3 * 2 powi (- 5)) = of_int 3 * 2 powi (- 5)"
    by (rule round_to_double_exact) simp_all
  moreover have "round_to_double (of_int 13 * 2 powi (- 7)) = of_int 13 * 2 powi (- 7)"
    by (rule round_to_double_exact) simp_all
  ultimately have p: "3 / 32 \<le> p" "p \<le> 13 / 128" by simp_all
  then have "of_int 35 * 2 powi (- 5) \<le> 1 + p" "1 + p \<le> of_int 141 * 2 powi (- 7)" by simp_all
  then have "round_to_double (of_int 35 * 2 powi (- 5)) \<le> s" "s \<le> round_to_double (of_int 141 * 2 powi (- 7))"
    unfolding s_def by (simp_all only: round_to_double_mono)
  moreover have "round_to_double (of_int 35 * 2 powi (- 5)) = of_int 35 * 2 powi (- 5)"
    by (rule round_to_double_exact) simp_all
  moreover have "round_to_double (of_int 141 * 2 powi (- 7)) = of_int 141 * 2 powi (- 7)"
    by (rule round_to_double_exact) simp_all
  ultimately have s: "35 / 32 \<le> s" "s \<le> 141 / 128" by simp_all
  then have s0: "0 < s" by linarith
  have "100 / (141 / 128) \<le> 100 / s" using s(2) s0 by (intro divide_left_mono) simp_all
  then have lo: "of_int 363 * 2 powi (- 2) \<le> 100 / s" by simp
  have "100 / s \<le> 100 / (35 / 32)" using s(1) by (intro divide_left_mono) simp_all
  then have hi: "100 / s \<le> of_int 1463 * 2 powi (- 4)" by simp
  have "round_to_double (of_int 363 * 2 powi (- 2)) \<le> q" "q \<le> round_to_double (of_int 1463 * 2 powi (- 4))"
    unfolding q_def by (rule round_to_double_mono[OF lo] round_to_double_mono[OF hi])+
  moreover have "round_to_double (of_int 363 * 2 powi (- 2)) = of_int 363 * 2 powi (- 2)"
    by (rule round_to_double_exact) simp_all
  moreover have "round_to_double (of_int 1463 * 2 powi (- 4)) = of_int 1463 * 2 powi (- 4)"
    by (rule round_to_double_exact) simp_all
  ultimately have "363 / 4 \<le> q" "q \<le> 1463 / 16" by simp_all
  then have "q - 91 < 1 / 2 \<and> - (q - 91) < 1 / 2" by linarith
  then have "\<bar>q - 91\<bar> < 1 / 2" by (simp only: abs_less_iff)
  then have "\<bar>q - of_int 91\<bar> < 1 / 2" by simp
  then show ?thesis unfolding fq by (rule round_half_even_eval)
qed

text \<open>
  C3, as amended. For every text shorter than \<open>2 ^ 63\<close> characters \<^verbatim>\<open>get_font_size\<close>
  returns the quotient \<open>100 / (1 + 0.05 * |20 - length|)\<close> truncated to an integer (its
  floor, the quotient being positive), not rounded; for a text of 20 characters it returns
  100.
\<close>

theorem font_size_is_truncated_quotient:
  assumes "length text < 2 ^ 63"
  shows "get_font_size text =
           Inr \<lfloor>(100::rat) / (1 + 5 / 100 * of_int \<bar>20 - int (length text)\<bar>)\<rfloor> \<and>
         (length text = 20 \<longrightarrow> get_font_size text = Inr 100)"
proof -
  have "0 \<le> \<bar>20 - int (length text)\<bar>" by simp
  then have "\<lfloor>(100::rat) / (1 + 5 / 100 * of_int \<bar>20 - int (length text)\<bar>)\<rfloor> =
      2000 div (20 + \<bar>20 - int (length text)\<bar>)"
    by (rule truncated_quotient)
  then have "get_font_size text =
      Inr \<lfloor>(100::rat) / (1 + 5 / 100 * of_int \<bar>20 - int (length text)\<bar>)\<rfloor>"
    using get_font_size_value[OF assms] by simp
  moreover have "length text = 20 \<longrightarrow> get_font_size text = Inr 100"
    using get_font_size_value[OF assms] by simp
  ultimately show ?thesis by simp
qed

theorem font_size_is_truncated_quotient_witness:
  "length (py_str ''thumbnail generator!'') < 2 ^ 63 \<and> length (py_str ''thumbnail generator!'') = 20 \<and>
   get_font_size (py_str ''thumbnail generator!'') = Inr 100"
  using font_size_is_truncated_quotient[of "py_str ''thumbnail generator!''"] by simp

text \<open>
  C3 as stated fails on a text of 18 characters: the quotient is about 90.9, the code
  returns 90, and rounding gives 91, with the operations of the code as well as in exact
  arithmetic.
\<close>

theorem eighteen_characters_are_truncated:
  "get_font_size (py_str ''Hello, brave world'') = Inr 90 \<and>
   rounded_font_size (py_str ''Hello, brave world'') = Inr 91 \<and>
   exact_rounded_font_size (py_str ''Hello, brave world'') = 91"
proof -
  have l: "length (py_str ''Hello, brave world'') < 2 ^ 63" by simp
  have "get_font_size (py_str ''Hello, brave world'') = Inr 90"
    unfolding get_font_size_value[OF l] by simp
  moreover have "rounded_font_size (py_str ''Hello, brave world'') = Inr 91"
    unfolding rounded_font_size_value[OF l] using font_quotient_two by simp
  moreover have "exact_rounded_font_size (py_str ''Hello, brave world'') = 91"
    unfolding exact_rounded_font_size_def
    using round_half_even_eval[of "100 / (1 + 5 / 100 * of_int \<bar>20 - int (length (py_str ''Hello, brave world''))\<bar>)" 91]
    by simp
  ultimately show ?thesis by simp
qed

text \<open>
  C8, as amended. For texts shorter than \<open>2 ^ 63\<close> characters the font size does not
  increase when \<open>|20 - length|\<close> increases, and it decreases strictly as long as the larger
  deviation is at most 29.
\<close>

theorem font_size_decreases_weakly:
  assumes "length ta < 2 ^ 63" and "length tb < 2 ^ 63"
    and "\<bar>20 - int (length ta)\<bar> \<le> \<bar>20 - int (length tb)\<bar>"
  shows "\<exists>fa fb. get_font_size ta = Inr fa \<and> get_font_size tb = Inr fb \<and> fb \<le> fa \<and>
           (\<bar>20 - int (length ta)\<bar> < \<bar>20 - int (length tb)\<bar> \<and> \<bar>20 - int (length tb)\<bar> \<le> 29
              \<longrightarrow> fb < fa)"
proof -
  define ka where "ka = \<bar>20 - int (length ta)\<bar>"
  define kb where "kb = \<bar>20 - int (length tb)\<bar>"
  have k: "0 \<le> ka" "ka \<le> kb" using assms(3) by (simp_all add: ka_def kb_def)
  have "2000 div (20 + kb) \<le> 2000 div (20 + ka)"
    using k by (intro zdiv_mono2) simp_all
  moreover have "ka < kb \<and> kb \<le> 29 \<longrightarrow> 2000 div (20 + kb) < 2000 div (20 + ka)"
    using k(1) font_size_steps[of ka kb] by blast
  ultimately show ?thesis
    unfolding get_font_size_value[OF assms(1)] get_font_size_value[OF assms(2)]
      ka_def[symmetric] kb_def[symmetric]
    by blast
qed

theorem font_size_decreases_weakly_witness:
  "length (py_str ''thumbnail generator!'') < 2 ^ 63 \<and> length (py_str ''Hello, brave world'') < 2 ^ 63 \<and>
   \<bar>20 - int (length (py_str ''thumbnail generator!''))\<bar> < \<bar>20 - int (length (py_str ''Hello, brave world''))\<bar> \<and>
   \<bar>20 - int (length (py_str ''Hello, brave world''))\<bar> \<le> 29 \<and>
   (\<exists>fa fb. get_font_size (py_str ''thumbnail generator!'') = Inr fa \<and>
        get_font_size (py_str ''Hello, brave world'') = Inr fb \<and> fb < fa)"
  using font_size_decreases_weakly[of "py_str ''thumbnail generator!''" "py_str ''Hello, brave world''"]
  by simp blast

text \<open>
  C8 as stated fails for the lengths 49 and 50: the deviations are 29 and 30, and both font
  sizes are 40.
\<close>

theorem lengths_49_and_50_share_a_font_size:
  "\<bar>20 - int (length (replicate 49 (ord_char CHR ''a'')))\<bar> < \<bar>20 - int (length (replicate 50 (ord_char CHR ''a'')))\<bar> \<and>
   get_font_size (replicate 49 (ord_char CHR ''a'')) = Inr 40 \<and>
   get_font_size (replicate 50 (ord_char CHR ''a'')) = Inr 40"
proof -
  have "length (replicate 49 (ord_char CHR ''a'')) < 2 ^ 63" "length (replicate 50 (ord_char CHR ''a'')) < 2 ^ 63"
    by simp_all
  then show ?thesis by (simp add: get_font_size_value)
qed

end
